theory Spec2Isabelle
  imports Main "HOL-Library.AList" "HOL-Library.Sublist"
begin

section \<open>Data model (src/unnamed/part_000, types/chat)\<close>

text \<open>
  A \<open>ChatMessage\<close>. The fields that the synchronisation code reads are the id and
  the creation time; the remaining payload is kept so that two messages with the same id
  can differ. \<open>createdAt\<close> is a JavaScript number (epoch milliseconds).
\<close>

record chat_message =
  msg_id :: string
  msg_text :: string
  createdAt :: int
  updatedAt :: int
  isOutgoing :: bool
  canEdit :: bool

text \<open>\<open>MessagesGetResponse['data']\<close>: one fetched page and the change id it is valid for.\<close>

record messages_data =
  data_messages :: "chat_message list"
  data_lastChangeId :: "string option"

text \<open>
  The refs of the \<open>useChat\<close> hook (src/hooks/use-chat.ts, lines 84-94) together with the
  \<open>error\<close> state. \<open>messagesByIdRef\<close> is only read by key, so it is a map;
  \<open>sentMessagesRef\<close> is iterated in insertion order, so it is an association list
  (\<open>Map.set\<close> is \<open>AList.update\<close>: an existing key keeps its place, a new key goes last).
\<close>

record chat_store =
  messagesRef :: "chat_message list"
  messagesByIdRef :: "string \<rightharpoonup> chat_message"
  sentMessagesRef :: "(string \<times> chat_message) list"
  firstMessagesPageLoadedRef :: bool
  lastChangeIdRef :: "string option"
  lastMarkAsReadIdRef :: "string option"
  lastMessageIdRef :: "string option"
  messagesVersion :: nat
  error :: "string option"

definition initial_store :: chat_store where
  "initial_store =
     \<lparr>messagesRef = [], messagesByIdRef = Map.empty, sentMessagesRef = [],
      firstMessagesPageLoadedRef = False, lastChangeIdRef = None, lastMarkAsReadIdRef = None,
      lastMessageIdRef = None, messagesVersion = 0, error = None\<rparr>"

subsection \<open>JavaScript truthiness of optional strings and numbers\<close>

definition truthy_str :: "string option \<Rightarrow> bool" where
  "truthy_str v = (case v of None \<Rightarrow> False | Some s \<Rightarrow> s \<noteq> [])"

definition truthy_num :: "int option \<Rightarrow> bool" where
  "truthy_num v = (case v of None \<Rightarrow> False | Some n \<Rightarrow> n \<noteq> 0)"

text \<open>\<open>Array.prototype.findIndex\<close>: the first index whose element satisfies the test, or -1.\<close>

fun findIndex :: "('a \<Rightarrow> bool) \<Rightarrow> 'a list \<Rightarrow> int" where
  "findIndex P [] = -1"
| "findIndex P (x # xs) =
     (if P x then 0 else (let r = findIndex P xs in if r = -1 then -1 else r + 1))"

section \<open>processNewMessages (src/hooks/use-chat.ts, lines 167-258)\<close>

datatype add_type = Append | Prepend | Replace

definition head_id :: "chat_store \<Rightarrow> string option" where
  "head_id s = (case messagesRef s of [] \<Rightarrow> None | m # _ \<Rightarrow> Some (msg_id m))"

definition tail_id :: "chat_store \<Rightarrow> string option" where
  "tail_id s = (if messagesRef s = [] then None else Some (msg_id (last (messagesRef s))))"

text \<open>Lines 180-197: the merge mode.\<close>

definition chooseAddType ::
  "chat_store \<Rightarrow> chat_message list \<Rightarrow> string option \<Rightarrow> int option \<Rightarrow> int option \<Rightarrow> add_type" where
  "chooseAddType s newMessages pageWith sliceBefore sliceAfter =
     (if messagesRef s = [] then Append
      else if \<not> truthy_str pageWith then
        (if messagesByIdRef s (msg_id (last newMessages)) \<noteq> None then Prepend else Replace)
      else if head_id s = pageWith \<and> truthy_num sliceAfter then Prepend
      else if tail_id s = pageWith \<and> truthy_num sliceBefore then Append
      else if truthy_str pageWith then Replace
      else Replace)"

text \<open>Lines 199-206: the new value of \<open>firstMessagesPageLoaded\<close>.\<close>

definition nextFirstPageLoaded ::
  "chat_store \<Rightarrow> string option \<Rightarrow> int option \<Rightarrow> int option \<Rightarrow> int option \<Rightarrow> bool" where
  "nextFirstPageLoaded s pageWith sliceBefore sliceAfter indexOfPageWith =
     (if firstMessagesPageLoadedRef s \<and> truthy_str pageWith \<and> truthy_num sliceBefore
           \<and> \<not> truthy_num sliceAfter
      then messagesRef s \<noteq> [] \<and> tail_id s = pageWith
      else \<not> truthy_str pageWith \<or>
           (case sliceAfter of
              None \<Rightarrow> False
            | Some n \<Rightarrow> n \<noteq> 0 \<and> (case indexOfPageWith of None \<Rightarrow> 0 | Some i \<Rightarrow> i) + 1 < n))"

text \<open>
  Lines 216-234: the loop over the page, in the order in which the loop visits it. The
  accumulator is the store and the set \<open>updateMessages\<close>. The comparison of the two
  \<open>JSON.stringify\<close> results is the comparison of the two records.
\<close>

definition addMessage ::
  "add_type \<Rightarrow> chat_message \<Rightarrow> chat_store \<times> string set \<Rightarrow> chat_store \<times> string set" where
  "addMessage t m acc =
     (let s = fst acc; upd = snd acc in
      if msg_id m \<noteq> [] then
        (case messagesByIdRef s (msg_id m) of
           Some e \<Rightarrow>
             if e \<noteq> m
             then (s\<lparr>messagesByIdRef := (messagesByIdRef s)(msg_id m \<mapsto> m)\<rparr>, insert (msg_id m) upd)
             else (s, upd)
         | None \<Rightarrow>
             (s\<lparr>messagesByIdRef := (messagesByIdRef s)(msg_id m \<mapsto> m),
                sentMessagesRef := AList.delete (msg_id m) (sentMessagesRef s),
                messagesRef := (if t = Append then messagesRef s @ [m] else m # messagesRef s)\<rparr>,
              upd))
      else (s, upd))"

fun addMessages ::
  "add_type \<Rightarrow> chat_message list \<Rightarrow> chat_store \<times> string set \<Rightarrow> chat_store \<times> string set" where
  "addMessages t [] acc = acc"
| "addMessages t (m # ms) acc = addMessages t ms (addMessage t m acc)"

text \<open>
  Lines 236-244: the slots of the updated ids are reloaded from the index. Every id in
  \<open>updateMessages\<close> was stored in the index by the loop, so the lookup finds it.
\<close>

definition refreshUpdated :: "string set \<Rightarrow> chat_store \<Rightarrow> chat_store" where
  "refreshUpdated upd s =
     (if upd \<noteq> {} then
        s\<lparr>messagesRef :=
            map (\<lambda>m. if msg_id m \<in> upd
                     then (case messagesByIdRef s (msg_id m) of Some m' \<Rightarrow> m' | None \<Rightarrow> m)
                     else m)
                (messagesRef s)\<rparr>
      else s)"

text \<open>Lines 215-244: the loop in the order the mode prescribes, then the reload.\<close>

definition insertMessages :: "add_type \<Rightarrow> chat_message list \<Rightarrow> chat_store \<Rightarrow> chat_store" where
  "insertMessages addType newMessages s =
     (let r = addMessages addType
                (if addType = Append then newMessages else rev newMessages) (s, {})
      in refreshUpdated (snd r) (fst r))"

text \<open>Lines 208-213: a replace clears the sequence and the index and goes on as an append.\<close>

definition clearIfReplace :: "add_type \<Rightarrow> chat_store \<Rightarrow> chat_store" where
  "clearIfReplace addType s =
     (if addType = Replace then s\<lparr>messagesByIdRef := Map.empty, messagesRef := []\<rparr> else s)"

definition finalAddType :: "add_type \<Rightarrow> add_type" where
  "finalAddType addType = (if addType = Replace then Append else addType)"

text \<open>Lines 179-244: from the choice of the mode to the reload.\<close>

definition mergeBody ::
  "chat_store \<Rightarrow> chat_message list \<Rightarrow> string option \<Rightarrow> int option \<Rightarrow> int option \<Rightarrow> int option
     \<Rightarrow> chat_store" where
  "mergeBody s newMessages pageWith sliceBefore sliceAfter indexOfPageWith =
     (let addType = chooseAddType s newMessages pageWith sliceBefore sliceAfter;
          s1 = s\<lparr>firstMessagesPageLoadedRef :=
                  nextFirstPageLoaded s pageWith sliceBefore sliceAfter indexOfPageWith\<rparr>;
          s2 = clearIfReplace addType s1
      in insertMessages (finalAddType addType) newMessages s2)"

text \<open>Line 176: the position of the pivot in the page, \<open>null\<close> when no pivot is given.\<close>

definition indexOfPageWith :: "chat_message list \<Rightarrow> string option \<Rightarrow> int option" where
  "indexOfPageWith newMessages pageWith =
     (if truthy_str pageWith
      then Some (findIndex (\<lambda>m. Some (msg_id m) = pageWith) newMessages)
      else None)"

definition processNewMessages ::
  "chat_store \<Rightarrow> messages_data option \<Rightarrow> string option \<Rightarrow> int option \<Rightarrow> int option
     \<Rightarrow> bool \<times> chat_store" where
  "processNewMessages s newMessagesData pageWith sliceBefore sliceAfter =
     (case newMessagesData of
        None \<Rightarrow> (False, s)
      | Some d \<Rightarrow>
          let newMessages = data_messages d;
              newChangeId = (if truthy_str (data_lastChangeId d) then data_lastChangeId d else None)
          in
          if newMessages = [] then (False, s)
          else if indexOfPageWith newMessages pageWith = Some (- 1) then (False, s)
          else
            let s4 = mergeBody s newMessages pageWith sliceBefore sliceAfter
                       (indexOfPageWith newMessages pageWith);
                s5 = (if firstMessagesPageLoadedRef s4 \<and> messagesRef s4 \<noteq> []
                      then s4\<lparr>lastMessageIdRef := head_id s4\<rparr> else s4);
                s6 = (if newChangeId \<noteq> None then s5\<lparr>lastChangeIdRef := newChangeId\<rparr> else s5)
            in (True, s6))"

subsection \<open>Invariants of the merged store\<close>

text \<open>
  The ids of the sequence are distinct, every message of the sequence is the entry of the
  index under its id, and every entry of the index is stored under its own id.
\<close>

definition store_inv :: "chat_store \<Rightarrow> bool" where
  "store_inv s \<longleftrightarrow>
     distinct (map msg_id (messagesRef s)) \<and>
     (\<forall>m \<in> set (messagesRef s). messagesByIdRef s (msg_id m) = Some m) \<and>
     (\<forall>k v. messagesByIdRef s k = Some v \<longrightarrow> msg_id v = k)"

text \<open>
  Inside the loop the slots of the ids in \<open>updateMessages\<close> are stale until the reload.
\<close>

definition merge_inv :: "chat_message list \<Rightarrow> (string \<rightharpoonup> chat_message) \<Rightarrow> string set \<Rightarrow> bool" where
  "merge_inv ms idx upd \<longleftrightarrow>
     distinct (map msg_id ms) \<and>
     (\<forall>m \<in> set ms. \<exists>v. idx (msg_id m) = Some v \<and> (msg_id m \<notin> upd \<longrightarrow> v = m)) \<and>
     (\<forall>k v. idx k = Some v \<longrightarrow> msg_id v = k)"

definition loop_inv :: "chat_store \<times> string set \<Rightarrow> bool" where
  "loop_inv acc \<longleftrightarrow> merge_inv (messagesRef (fst acc)) (messagesByIdRef (fst acc)) (snd acc)"

text \<open>The function that the reload of lines 236-244 applies to every slot.\<close>

definition reload :: "string set \<Rightarrow> chat_store \<Rightarrow> chat_message \<Rightarrow> chat_message" where
  "reload upd s m =
     (if msg_id m \<in> upd
      then (case messagesByIdRef s (msg_id m) of Some m' \<Rightarrow> m' | None \<Rightarrow> m)
      else m)"

text \<open>A sequence of page merges, each applied to the store the previous one left.\<close>

record merge_call =
  call_data :: "messages_data option"
  call_pageWith :: "string option"
  call_sliceBefore :: "int option"
  call_sliceAfter :: "int option"

definition mergePage :: "chat_store \<Rightarrow> merge_call \<Rightarrow> bool \<times> chat_store" where
  "mergePage s c =
     processNewMessages s (call_data c) (call_pageWith c) (call_sliceBefore c) (call_sliceAfter c)"

fun mergePages :: "chat_store \<Rightarrow> merge_call list \<Rightarrow> chat_store" where
  "mergePages s [] = s"
| "mergePages s (c # cs) = mergePages (snd (mergePage s c)) cs"

text \<open>The test of line 224 for a message that carries an id: the index does not know it.\<close>

definition is_new :: "chat_store \<Rightarrow> chat_message \<Rightarrow> bool" where
  "is_new s m \<longleftrightarrow> msg_id m \<noteq> [] \<and> messagesByIdRef s (msg_id m) = None"

subsection \<open>Chronological order\<close>

text \<open>
  The sequence is held newest first: \<open>loadMoreMessages\<close> asks for the messages before
  the last element and appends them, a created message is put at the head, and
  \<open>lastMessageIdRef\<close> is the id of the head.
\<close>

definition newest_first :: "chat_message list \<Rightarrow> bool" where
  "newest_first ms = sorted_wrt (\<lambda>a b. createdAt b \<le> createdAt a) ms"

subsection \<open>The server timeline and pages that answer their request\<close>

text \<open>
  The server holds one timeline of messages, each known by its id and its creation time,
  newest first, with distinct non-empty ids. The payload of a message may change between
  two fetches; its id and its creation time do not.
\<close>

type_synonym timeline = "(string \<times> int) list"

definition key :: "chat_message \<Rightarrow> string \<times> int" where
  "key m = (msg_id m, createdAt m)"

definition is_timeline :: "timeline \<Rightarrow> bool" where
  "is_timeline T \<longleftrightarrow>
     distinct (map fst T) \<and> sorted_wrt (\<lambda>a b. snd b \<le> snd a) T \<and> [] \<notin> fst ` set T"

text \<open>The number of messages a slice parameter asks for: none when it is absent or 0.\<close>

definition slice_count :: "int option \<Rightarrow> int" where
  "slice_count v = (case v of None \<Rightarrow> 0 | Some n \<Rightarrow> n)"

text \<open>
  A call has a consistent pivot when its page is what the request asks the timeline for: a
  contiguous stretch of the timeline and, when a pivot is given, one that holds the pivot
  with at most \<open>sliceAfter\<close> messages in front of it (the newer ones) and at most
  \<open>sliceBefore\<close> messages behind it (the older ones). This is a condition on the call and
  the timeline alone; it mentions neither the store nor the merge.
\<close>

definition fitsTimeline :: "timeline \<Rightarrow> merge_call \<Rightarrow> bool" where
  "fitsTimeline T c =
     (case call_data c of
        None \<Rightarrow> True
      | Some d \<Rightarrow>
          let ks = map key (data_messages d) in
          sublist ks T \<and>
          (case call_pageWith c of
             None \<Rightarrow> True
           | Some p \<Rightarrow>
               p = [] \<or>
               (let newer = takeWhile (\<lambda>k. fst k \<noteq> p) ks;
                    rest = dropWhile (\<lambda>k. fst k \<noteq> p) ks
                in rest \<noteq> [] \<and>
                   int (length newer) \<le> slice_count (call_sliceAfter c) \<and>
                   int (length rest) - 1 \<le> slice_count (call_sliceBefore c))))"

text \<open>A call with a pivot asks for one side of it: not for both slices.\<close>

definition oneSided :: "merge_call \<Rightarrow> bool" where
  "oneSided c \<longleftrightarrow>
     \<not> (truthy_str (call_pageWith c) \<and> truthy_num (call_sliceBefore c)
          \<and> truthy_num (call_sliceAfter c))"

definition carriesPage :: "merge_call \<Rightarrow> bool" where
  "carriesPage c = (case call_data c of None \<Rightarrow> False | Some d \<Rightarrow> data_messages d \<noteq> [])"

text \<open>
  A sequence of calls with consistent pivots in which only the first page may be asked
  for on both sides of its pivot (the request of \<open>loadFreshState\<close>, made for an empty
  store); the flag says whether a page came before.
\<close>

fun consistentPivots :: "timeline \<Rightarrow> bool \<Rightarrow> merge_call list \<Rightarrow> bool" where
  "consistentPivots T started [] = True"
| "consistentPivots T started (c # cs) =
     (fitsTimeline T c \<and> (\<not> started \<or> oneSided c) \<and>
      consistentPivots T (started \<or> carriesPage c) cs)"

text \<open>The index holds exactly the ids of the sequence.\<close>

definition index_tight :: "chat_store \<Rightarrow> bool" where
  "index_tight s \<longleftrightarrow> dom (messagesByIdRef s) = msg_id ` set (messagesRef s)"

section \<open>The change loop of loadChanges (src/hooks/use-chat.ts, lines 339-373)\<close>

datatype operation = Create | Update | Delete

record chat_change =
  change_id :: string
  operation :: operation
  change_message :: "chat_message option"
  change_messageId :: "string option"

text \<open>Lines 345-365: the three branches of the loop body, in the order of the source.\<close>

fun applyOperation ::
  "chat_store \<Rightarrow> operation \<Rightarrow> chat_message option \<Rightarrow> string option \<Rightarrow> chat_store" where
  "applyOperation s Create (Some message) _ =
     (let s1 = s\<lparr>lastMessageIdRef := Some (msg_id message),
                  messagesByIdRef := (messagesByIdRef s)(msg_id message \<mapsto> message)\<rparr>;
          s2 = (if firstMessagesPageLoadedRef s1
                then s1\<lparr>messagesRef := message # messagesRef s1\<rparr> else s1)
      in s2\<lparr>sentMessagesRef := AList.delete (msg_id message) (sentMessagesRef s2)\<rparr>)"
| "applyOperation s Update (Some message) _ =
     (let s1 = s\<lparr>messagesByIdRef := (messagesByIdRef s)(msg_id message \<mapsto> message)\<rparr>;
          idx = findIndex (\<lambda>m. msg_id m = msg_id message) (messagesRef s1)
      in if idx \<noteq> - 1 then s1\<lparr>messagesRef := (messagesRef s1)[nat idx := message]\<rparr> else s1)"
| "applyOperation s Delete _ (Some messageId) =
     (if messageId \<noteq> []
      then s\<lparr>messagesByIdRef := (messagesByIdRef s)(messageId := None),
             messagesRef := filter (\<lambda>m. msg_id m \<noteq> messageId) (messagesRef s)\<rparr>
      else s)"
| "applyOperation s _ _ _ = s"

definition applyChange :: "chat_store \<Rightarrow> chat_change \<Rightarrow> chat_store" where
  "applyChange s c = applyOperation s (operation c) (change_message c) (change_messageId c)"

text \<open>
  Lines 339-373: a non-empty list of changes is applied in order, the id of the last
  change becomes the cursor when it is a non-empty string, and the view is re-rendered.
\<close>

definition applyChanges :: "chat_store \<Rightarrow> chat_change list \<Rightarrow> chat_store" where
  "applyChanges s changes =
     (if changes = [] then s
      else
        let s1 = foldl applyChange s changes;
            lastChangeId = change_id (last changes);
            s2 = (if lastChangeId \<noteq> [] then s1\<lparr>lastChangeIdRef := Some lastChangeId\<rparr> else s1)
        in s2\<lparr>messagesVersion := messagesVersion s2 + 1\<rparr>)"

section \<open>The derived list messages (src/hooks/use-chat.ts, lines 97-123)\<close>

text \<open>One pass of either loop: a message is pushed unless its id was seen before.\<close>

fun pushNew ::
  "chat_message list \<Rightarrow> chat_message list \<times> string set \<Rightarrow> chat_message list \<times> string set" where
  "pushNew [] acc = acc"
| "pushNew (msg # rest) acc =
     pushNew rest
       (if msg_id msg \<notin> snd acc then (fst acc @ [msg], insert (msg_id msg) (snd acc)) else acc)"

definition messages :: "chat_store \<Rightarrow> chat_message list" where
  "messages s =
     (let sentMessagesArray = map snd (sentMessagesRef s)
      in fst (pushNew (messagesRef s) (pushNew (rev sentMessagesArray) ([], {}))))"

text \<open>The messages that one pass pushes: the first occurrence of every id not seen before.\<close>

fun unseen :: "string set \<Rightarrow> chat_message list \<Rightarrow> chat_message list" where
  "unseen seen [] = []"
| "unseen seen (m # ms) =
     (if msg_id m \<in> seen then unseen seen ms else m # unseen (insert (msg_id m) seen) ms)"

section \<open>markAsRead and sendMessage (src/hooks/use-chat.ts, lines 384-510)\<close>

text \<open>
  The endpoints of \<open>ChatConfig\<close> that the two functions read, and the network
  requests they issue. A request is recorded in the order in which it is issued.
\<close>

record chat_config =
  messages_add_url :: string
  mark_as_read_url :: string

datatype request =
    PostMarkAsRead string string
  | PostAddMessage string string string

text \<open>
  Lines 477-489 of \<open>markAsRead\<close>, up to the point where the request is issued. The
  last-marked message is looked up in the id index; \<open>createdAt\<close> is tested for
  truthiness, so a creation time of 0 counts as absent.
\<close>

definition markAsRead ::
  "chat_config option \<Rightarrow> chat_store \<Rightarrow> chat_message \<Rightarrow> chat_store \<times> request list" where
  "markAsRead chatConfig s message =
     (case chatConfig of
        None \<Rightarrow> (s, [])
      | Some cfg \<Rightarrow>
          if mark_as_read_url cfg = [] then (s, [])
          else
            let lastMarkAsRead =
                  (case lastMarkAsReadIdRef s of
                     None \<Rightarrow> None
                   | Some i \<Rightarrow> if i \<noteq> [] then messagesByIdRef s i else None)
            in
            if map_option msg_id lastMarkAsRead = Some (msg_id message) then (s, [])
            else if createdAt message \<noteq> 0 \<and>
                    (case lastMarkAsRead of
                       None \<Rightarrow> False
                     | Some l \<Rightarrow> createdAt l \<noteq> 0 \<and> createdAt message < createdAt l)
            then (s, [])
            else (s\<lparr>lastMarkAsReadIdRef := Some (msg_id message)\<rparr>,
                  [PostMarkAsRead (mark_as_read_url cfg) (msg_id message)]))"

text \<open>
  \<open>String.prototype.trim\<close> on a string of 8-bit characters: tab, line feed, vertical
  tab, form feed, carriage return, space and no-break space are removed at both ends.
\<close>

definition is_whitespace :: "char \<Rightarrow> bool" where
  "is_whitespace c \<longleftrightarrow>
     c \<in> {CHR 0x09, CHR 0x0A, CHR 0x0B, CHR 0x0C, CHR 0x0D, CHR 0x20, CHR 0xA0}"

definition trim :: "string \<Rightarrow> string" where
  "trim text = rev (dropWhile is_whitespace (rev (dropWhile is_whitespace text)))"

text \<open>
  Lines 384-430 of \<open>sendMessage\<close>, up to the point where the request is issued.
  \<open>messageId\<close> is the result of \<open>generateId()\<close> and \<open>now\<close> that of \<open>Date.now()\<close>.
\<close>

definition sendMessage ::
  "chat_config option \<Rightarrow> string \<Rightarrow> int \<Rightarrow> chat_store \<Rightarrow> string \<Rightarrow> chat_store \<times> request list" where
  "sendMessage chatConfig messageId now s text =
     (case chatConfig of
        None \<Rightarrow> (s, [])
      | Some cfg \<Rightarrow>
          if trim text = [] then (s, [])
          else
            let tempMessage =
                  \<lparr>msg_id = messageId, msg_text = trim text, createdAt = now, updatedAt = now,
                   isOutgoing = True, canEdit = True\<rparr>
            in (s\<lparr>sentMessagesRef := AList.update messageId tempMessage (sentMessagesRef s),
                   messagesVersion := messagesVersion s + 1\<rparr>,
                [PostAddMessage (messages_add_url cfg) messageId (trim text)]))"

text \<open>
  Lines 432-450: what \<open>sendMessage\<close> does with the outcome of the request: the
  server confirmed the message, the response carried none, or the request threw.
\<close>

datatype add_outcome = Added chat_message | NotAdded | Threw string

fun sendMessageDone :: "string \<Rightarrow> chat_store \<Rightarrow> add_outcome \<Rightarrow> chat_store" where
  "sendMessageDone messageId s (Added added) =
     s\<lparr>sentMessagesRef := AList.update (msg_id added) added (sentMessagesRef s),
       lastMarkAsReadIdRef := Some (msg_id added),
       lastMessageIdRef := Some (msg_id added),
       messagesVersion := messagesVersion s + 1\<rparr>"
| "sendMessageDone messageId s NotAdded = s"
| "sendMessageDone messageId s (Threw err) =
     s\<lparr>sentMessagesRef := AList.delete messageId (sentMessagesRef s),
       messagesVersion := messagesVersion s + 1,
       error := Some err\<rparr>"

section \<open>SocketStore rooms (src/unnamed/part_001, lines 132-157)\<close>

text \<open>
  The part of \<open>SocketStore\<close> that \<open>join\<close> and \<open>leave\<close> touch: the room counters,
  whether \<open>_io\<close> is set, and the events emitted on \<open>_io\<close>, oldest first.
\<close>

record socket_store =
  rooms :: "string \<rightharpoonup> nat"
  io_set :: bool
  emitted :: "(string \<times> string list) list"

datatype js_error = TypeError

text \<open>
  \<open>join\<close> calls \<open>this._io.emit\<close> with no test of \<open>_io\<close>: without a connection
  object the call throws, after the counter was written. \<open>rooms\<close> is a plain object in
  the source, so a room name that is a property every object inherits (\<open>constructor\<close>,
  \<open>toString\<close>, ...) reads as a function there; the map models the room names that are
  no such property.
\<close>

definition join :: "socket_store \<Rightarrow> string \<Rightarrow> js_error \<times> socket_store + socket_store" where
  "join st roomName =
     (case rooms st roomName of
        Some n \<Rightarrow>
          if n \<noteq> 0 then Inr (st\<lparr>rooms := (rooms st)(roomName \<mapsto> n + 1)\<rparr>)
          else
            let st1 = st\<lparr>rooms := (rooms st)(roomName \<mapsto> 1)\<rparr>
            in if io_set st1 then Inr (st1\<lparr>emitted := emitted st1 @ [(''join'', [roomName])]\<rparr>)
               else Inl (TypeError, st1)
      | None \<Rightarrow>
          let st1 = st\<lparr>rooms := (rooms st)(roomName \<mapsto> 1)\<rparr>
          in if io_set st1 then Inr (st1\<lparr>emitted := emitted st1 @ [(''join'', [roomName])]\<rparr>)
             else Inl (TypeError, st1))"

definition leave :: "socket_store \<Rightarrow> string \<Rightarrow> socket_store" where
  "leave st roomName =
     (case rooms st roomName of
        None \<Rightarrow> st
      | Some n \<Rightarrow>
          if n \<noteq> 0 \<and> n > 0 then
            let st1 = st\<lparr>rooms := (rooms st)(roomName \<mapsto> n - 1)\<rparr>;
                st2 = (if rooms st1 roomName = Some 0 \<and> io_set st1
                       then st1\<lparr>emitted := emitted st1 @ [(''leave'', [roomName])]\<rparr>
                       else st1)
            in st2\<lparr>rooms := (rooms st2)(roomName := None)\<rparr>
          else st)"

text \<open>A run of joins and leaves on a store; a throwing \<open>join\<close> ends the run.\<close>

datatype room_call = Join string | Leave string

fun room_calls :: "socket_store \<Rightarrow> room_call list \<Rightarrow> js_error \<times> socket_store + socket_store" where
  "room_calls st [] = Inr st"
| "room_calls st (Join r # cs) =
     (case join st r of Inl e \<Rightarrow> Inl e | Inr st' \<Rightarrow> room_calls st' cs)"
| "room_calls st (Leave r # cs) = room_calls (leave st r) cs"

definition connected_store :: socket_store where
  "connected_store = \<lparr>rooms = Map.empty, io_set = True, emitted = []\<rparr>"

section \<open>debounce (src/unnamed/part_001, lines 4-23)\<close>

text \<open>
  The closure that \<open>debounce\<close> returns, as a state machine. Its state is the flag
  \<open>scheduled\<close>, the arguments that the pending timer closed over (the \<open>arguments\<close> of
  the call that set the timer) and the log of the arguments the callback was applied to.
  The events are a call of the wrapper and the expiry of the timer, \<open>ms\<close> after it was set.
  With \<open>ms = 0\<close> the function returns the callback itself.
\<close>

record 'a debounced =
  scheduled :: bool
  timer :: "'a option"
  applied :: "'a list"

datatype 'a tick = Invoke 'a | TimerFires

definition idle :: "'a debounced" where
  "idle = \<lparr>scheduled = False, timer = None, applied = []\<rparr>"

fun debounce :: "nat \<Rightarrow> 'a debounced \<Rightarrow> 'a tick \<Rightarrow> 'a debounced" where
  "debounce ms d (Invoke args) =
     (if ms = 0 then d\<lparr>applied := applied d @ [args]\<rparr>
      else if scheduled d then d
      else d\<lparr>scheduled := True, timer := Some args\<rparr>)"
| "debounce ms d TimerFires =
     (case timer d of
        None \<Rightarrow> d
      | Some args \<Rightarrow> d\<lparr>scheduled := False, timer := None, applied := applied d @ [args]\<rparr>)"

definition debounce_run :: "nat \<Rightarrow> 'a debounced \<Rightarrow> 'a tick list \<Rightarrow> 'a debounced" where
  "debounce_run ms d ticks = foldl (debounce ms) d ticks"

section \<open>SocketSubscription (src/unnamed/part_001, lines 305-372)\<close>

text \<open>
  The listeners of a subscription (by identity), the cached value and the log of the
  listeners called, oldest first. The opaque value is a string; \<open>None\<close> is \<open>null\<close> or
  \<open>undefined\<close>, and the empty string is falsy as well.
\<close>

record socket_subscription =
  listeners :: "nat list"
  lastUpdatedValue :: "string option"
  called :: "nat list"

definition emitChanged :: "socket_subscription \<Rightarrow> socket_subscription" where
  "emitChanged sub = sub\<lparr>called := called sub @ listeners sub\<rparr>"

text \<open>Lines 339-348: the acknowledgment of \<open>socket/subscribe\<close>.\<close>

definition onSubscribeAck :: "socket_subscription \<Rightarrow> string option \<Rightarrow> socket_subscription" where
  "onSubscribeAck sub data =
     (let sub1 = (if truthy_str (lastUpdatedValue sub) \<and> truthy_str data
                     \<and> lastUpdatedValue sub \<noteq> data
                  then emitChanged sub else sub)
      in sub1\<lparr>lastUpdatedValue := data\<rparr>)"

text \<open>Lines 356-359: the push event \<open>socket/<socketId>/updated\<close>.\<close>

definition onUpdated :: "socket_subscription \<Rightarrow> string option \<Rightarrow> socket_subscription" where
  "onUpdated sub data = emitChanged (sub\<lparr>lastUpdatedValue := data\<rparr>)"

section \<open>Example data\<close>

definition message_at :: "string \<Rightarrow> int \<Rightarrow> chat_message" where
  "message_at i t =
     \<lparr>msg_id = i, msg_text = [], createdAt = t, updatedAt = t, isOutgoing = False,
      canEdit = False\<rparr>"

definition page_of :: "chat_message list \<Rightarrow> messages_data option" where
  "page_of ms = Some \<lparr>data_messages = ms, data_lastChangeId = Some ''5''\<rparr>"

text \<open>
  A timeline of four messages and three merges that fit it: the page around the last-read
  message \<open>m3\<close> into the empty store (the request of \<open>loadFreshState\<close>), an older page
  asked for behind the tail, and a newer page asked for in front of the head.
\<close>

definition example_timeline :: timeline where
  "example_timeline = [(''m4'', 40), (''m3'', 30), (''m2'', 20), (''m1'', 10)]"

definition example_calls :: "merge_call list" where
  "example_calls =
     [\<lparr>call_data = page_of [message_at ''m3'' 30, message_at ''m2'' 20],
       call_pageWith = Some ''m3'', call_sliceBefore = Some 100, call_sliceAfter = Some 100\<rparr>,
      \<lparr>call_data = page_of [message_at ''m2'' 20, message_at ''m1'' 10],
       call_pageWith = Some ''m2'', call_sliceBefore = Some 50, call_sliceAfter = None\<rparr>,
      \<lparr>call_data = page_of [message_at ''m4'' 40, message_at ''m3'' 30],
       call_pageWith = Some ''m3'', call_sliceBefore = None, call_sliceAfter = Some 2\<rparr>]"

text \<open>
  A timeline of seven messages and two merges that fit it: the page around \<open>m4\<close> into the
  empty store, and then a page asked for on both sides of the head \<open>m5\<close>.
\<close>

definition long_timeline :: timeline where
  "long_timeline =
     [(''m7'', 70), (''m6'', 60), (''m5'', 50), (''m4'', 40), (''m3'', 30), (''m2'', 20),
      (''m1'', 10)]"

definition around_m4 :: merge_call where
  "around_m4 =
     \<lparr>call_data = page_of [message_at ''m5'' 50, message_at ''m4'' 40, message_at ''m3'' 30],
      call_pageWith = Some ''m4'', call_sliceBefore = Some 1, call_sliceAfter = Some 1\<rparr>"

definition around_head :: merge_call where
  "around_head =
     \<lparr>call_data = page_of [message_at ''m7'' 70, message_at ''m6'' 60, message_at ''m5'' 50,
                            message_at ''m4'' 40, message_at ''m3'' 30, message_at ''m2'' 20,
                            message_at ''m1'' 10],
      call_pageWith = Some ''m5'', call_sliceBefore = Some 100, call_sliceAfter = Some 100\<rparr>"

text \<open>The store after the page \<open>[m1]\<close> was merged into the empty store.\<close>

definition held_store :: chat_store where
  "held_store =
     snd (processNewMessages initial_store (page_of [message_at ''m1'' 10]) None None None)"

text \<open>
  A store with two pending sends, \<open>p1\<close> queued before \<open>p2\<close>, and two canonical
  messages, one of which has the id of \<open>p1\<close>.
\<close>

definition pending_store :: chat_store where
  "pending_store =
     initial_store
       \<lparr>messagesRef := [message_at ''m1'' 10, message_at ''p1'' 5],
        messagesByIdRef := [''m1'' \<mapsto> message_at ''m1'' 10, ''p1'' \<mapsto> message_at ''p1'' 5],
        sentMessagesRef := [(''p1'', message_at ''p1'' 20), (''p2'', message_at ''p2'' 30)]\<rparr>"

text \<open>Two change records: the creation of \<open>m2\<close> and an edit of \<open>m1\<close>.\<close>

definition create_m2 :: chat_change where
  "create_m2 =
     \<lparr>change_id = ''6'', operation = Create, change_message = Some (message_at ''m2'' 20),
      change_messageId = None\<rparr>"

definition update_m1 :: chat_change where
  "update_m1 =
     \<lparr>change_id = ''7'', operation = Update,
      change_message = Some ((message_at ''m1'' 10)\<lparr>msg_text := ''edited''\<rparr>),
      change_messageId = None\<rparr>"

definition example_config :: "chat_config option" where
  "example_config = Some \<lparr>messages_add_url = ''/add'', mark_as_read_url = ''/read''\<rparr>"

text \<open>
  Two stores whose last-marked id is \<open>m1\<close>. In the first the id index holds \<open>m1\<close>.
  The second is the store after \<open>sendMessage\<close> sent the text \<open>hi\<close> and the server
  confirmed it as \<open>m1\<close>: the marker is set, and the index does not hold \<open>m1\<close> until the
  changes are loaded.
\<close>

definition marked_store :: chat_store where
  "marked_store = held_store\<lparr>lastMarkAsReadIdRef := Some ''m1''\<rparr>"

definition unindexed_marker_store :: chat_store where
  "unindexed_marker_store =
     sendMessageDone ''m1'' (fst (sendMessage example_config ''m1'' 10 initial_store ''hi''))
       (Added (message_at ''m1'' 10))"

definition example_subscription :: socket_subscription where
  "example_subscription = \<lparr>listeners = [0, 1], lastUpdatedValue = Some ''v1'', called = []\<rparr>"

section \<open>Facts about the page merge\<close>

lemma findIndex_ge: "- 1 \<le> findIndex P xs"
  by (induction xs) (auto simp: Let_def)

lemma findIndex_none: "findIndex P xs = - 1 \<longleftrightarrow> (\<forall>x \<in> set xs. \<not> P x)"
proof (induction xs)
  case Nil
  show ?case by simp
next
  case (Cons x xs)
  have "findIndex P xs + 1 \<noteq> - 1" using findIndex_ge [of P xs] by arith
  with Cons show ?case by (auto simp: Let_def)
qed

lemma merge_inv_known:
  assumes "merge_inv ms idx upd"
  shows "merge_inv ms (idx(msg_id m \<mapsto> m)) (insert (msg_id m) upd)"
proof -
  have d: "distinct (map msg_id ms)" using assms by (simp add: merge_inv_def)
  have k: "\<forall>k v. (idx(msg_id m \<mapsto> m)) k = Some v \<longrightarrow> msg_id v = k"
    using assms by (simp add: merge_inv_def)
  have s: "\<forall>x \<in> set ms. \<exists>v. (idx(msg_id m \<mapsto> m)) (msg_id x) = Some v
              \<and> (msg_id x \<notin> insert (msg_id m) upd \<longrightarrow> v = x)"
  proof
    fix x assume x: "x \<in> set ms"
    show "\<exists>v. (idx(msg_id m \<mapsto> m)) (msg_id x) = Some v
              \<and> (msg_id x \<notin> insert (msg_id m) upd \<longrightarrow> v = x)"
    proof (cases "msg_id x = msg_id m")
      case True
      then show ?thesis by simp
    next
      case False
      moreover from x assms
      have "\<exists>v. idx (msg_id x) = Some v \<and> (msg_id x \<notin> upd \<longrightarrow> v = x)"
        by (simp add: merge_inv_def)
      ultimately show ?thesis by simp
    qed
  qed
  from d s k show ?thesis unfolding merge_inv_def by blast
qed

lemma merge_inv_fresh_ids:
  assumes "merge_inv ms idx upd" and "idx (msg_id m) = None"
  shows "msg_id m \<notin> msg_id ` set ms"
proof
  assume "msg_id m \<in> msg_id ` set ms"
  then obtain x where "x \<in> set ms" and "msg_id x = msg_id m" by auto
  with assms(1) have "idx (msg_id m) \<noteq> None" unfolding merge_inv_def by force
  with assms(2) show False by simp
qed

lemma merge_inv_push:
  assumes "merge_inv ms idx upd" and "idx (msg_id m) = None"
  shows "merge_inv (ms @ [m]) (idx(msg_id m \<mapsto> m)) upd"
proof -
  have fresh: "msg_id m \<notin> msg_id ` set ms" using assms by (rule merge_inv_fresh_ids)
  have d: "distinct (map msg_id (ms @ [m]))"
    using assms(1) fresh by (simp add: merge_inv_def)
  have k: "\<forall>k v. (idx(msg_id m \<mapsto> m)) k = Some v \<longrightarrow> msg_id v = k"
    using assms(1) by (simp add: merge_inv_def)
  have s: "\<forall>x \<in> set (ms @ [m]). \<exists>v. (idx(msg_id m \<mapsto> m)) (msg_id x) = Some v
              \<and> (msg_id x \<notin> upd \<longrightarrow> v = x)"
  proof
    fix x assume "x \<in> set (ms @ [m])"
    then consider "x = m" | "x \<in> set ms" by auto
    then show "\<exists>v. (idx(msg_id m \<mapsto> m)) (msg_id x) = Some v \<and> (msg_id x \<notin> upd \<longrightarrow> v = x)"
    proof cases
      case 1
      then show ?thesis by simp
    next
      case 2
      with fresh have "msg_id x \<noteq> msg_id m" by (metis imageI)
      moreover from 2 assms(1)
      have "\<exists>v. idx (msg_id x) = Some v \<and> (msg_id x \<notin> upd \<longrightarrow> v = x)"
        by (simp add: merge_inv_def)
      ultimately show ?thesis by simp
    qed
  qed
  from d s k show ?thesis unfolding merge_inv_def by blast
qed

lemma merge_inv_perm:
  assumes "merge_inv (ms @ [m]) idx upd"
  shows "merge_inv (m # ms) idx upd"
proof -
  have "distinct (map msg_id (m # ms)) = distinct (map msg_id (ms @ [m]))" by auto
  moreover have "set (m # ms) = set (ms @ [m])" by simp
  ultimately show ?thesis using assms unfolding merge_inv_def by metis
qed

lemma merge_inv_unshift:
  assumes "merge_inv ms idx upd" and "idx (msg_id m) = None"
  shows "merge_inv (m # ms) (idx(msg_id m \<mapsto> m)) upd"
  using merge_inv_push [OF assms] by (rule merge_inv_perm)

lemma addMessage_loop_inv:
  assumes "loop_inv acc"
  shows "loop_inv (addMessage t m acc)"
proof (cases "messagesByIdRef (fst acc) (msg_id m)")
  case None
  with assms show ?thesis
    by (simp add: loop_inv_def addMessage_def Let_def merge_inv_push merge_inv_unshift)
next
  case (Some e)
  with assms show ?thesis
    by (simp add: loop_inv_def addMessage_def Let_def merge_inv_known)
qed

lemma addMessages_loop_inv: "loop_inv acc \<Longrightarrow> loop_inv (addMessages t ms acc)"
  by (induction ms arbitrary: acc) (simp_all add: addMessage_loop_inv)

lemma store_inv_loop_inv: "store_inv s \<Longrightarrow> loop_inv (s, {})"
  by (simp add: store_inv_def loop_inv_def merge_inv_def)

lemma refreshUpdated_messages:
  "messagesRef (refreshUpdated upd s) = map (reload upd s) (messagesRef s)"
proof (cases "upd = {}")
  case True
  then have "map (reload upd s) (messagesRef s) = messagesRef s"
    by (simp add: reload_def map_idI)
  with True show ?thesis by (simp add: refreshUpdated_def)
next
  case False
  then show ?thesis by (simp add: refreshUpdated_def reload_def)
qed

lemma refreshUpdated_index [simp]: "messagesByIdRef (refreshUpdated upd s) = messagesByIdRef s"
  by (simp add: refreshUpdated_def)

lemma reload_indexed:
  assumes "loop_inv (s, upd)" and "x \<in> set (messagesRef s)"
  shows "messagesByIdRef s (msg_id x) = Some (reload upd s x)"
proof -
  from assms have "\<exists>v. messagesByIdRef s (msg_id x) = Some v \<and> (msg_id x \<notin> upd \<longrightarrow> v = x)"
    by (simp add: loop_inv_def merge_inv_def)
  then obtain v where v: "messagesByIdRef s (msg_id x) = Some v"
    and same: "msg_id x \<notin> upd \<longrightarrow> v = x"
    by blast
  then have "reload upd s x = v" by (simp add: reload_def)
  with v show ?thesis by simp
qed

lemma reload_id:
  assumes "loop_inv (s, upd)" and "x \<in> set (messagesRef s)"
  shows "msg_id (reload upd s x) = msg_id x"
proof -
  have "messagesByIdRef s (msg_id x) = Some (reload upd s x)"
    using assms by (rule reload_indexed)
  moreover have "\<forall>k v. messagesByIdRef s k = Some v \<longrightarrow> msg_id v = k"
    using assms(1) by (simp add: loop_inv_def merge_inv_def)
  ultimately show ?thesis by blast
qed

lemma refreshUpdated_ids:
  assumes "loop_inv (s, upd)"
  shows "map msg_id (messagesRef (refreshUpdated upd s)) = map msg_id (messagesRef s)"
  unfolding refreshUpdated_messages map_map
  by (rule map_cong [OF refl]) (simp add: reload_id [OF assms])

lemma refreshUpdated_store_inv:
  assumes "loop_inv (s, upd)"
  shows "store_inv (refreshUpdated upd s)"
proof -
  have ids: "map msg_id (messagesRef (refreshUpdated upd s)) = map msg_id (messagesRef s)"
    using assms by (rule refreshUpdated_ids)
  have slots: "\<forall>m \<in> set (messagesRef (refreshUpdated upd s)).
          messagesByIdRef s (msg_id m) = Some m"
  proof
    fix m assume "m \<in> set (messagesRef (refreshUpdated upd s))"
    then obtain x where x: "x \<in> set (messagesRef s)" and m: "m = reload upd s x"
      unfolding refreshUpdated_messages by auto
    show "messagesByIdRef s (msg_id m) = Some m"
      using reload_indexed [OF assms x] reload_id [OF assms x] m by simp
  qed
  have "distinct (map msg_id (messagesRef s))"
    and "\<forall>k v. messagesByIdRef s k = Some v \<longrightarrow> msg_id v = k"
    using assms by (simp_all add: loop_inv_def merge_inv_def)
  with ids slots show ?thesis
    by (simp add: store_inv_def)
qed

lemma insertMessages_store_inv:
  assumes "store_inv s"
  shows "store_inv (insertMessages t ms s)"
  unfolding insertMessages_def Let_def
  by (rule refreshUpdated_store_inv) (simp add: addMessages_loop_inv store_inv_loop_inv assms)

lemma store_inv_fields:
  "messagesRef a = messagesRef b \<Longrightarrow> messagesByIdRef a = messagesByIdRef b
     \<Longrightarrow> store_inv a = store_inv b"
  by (simp add: store_inv_def)

lemma clearIfReplace_store_inv: "store_inv s \<Longrightarrow> store_inv (clearIfReplace t s)"
  by (simp add: clearIfReplace_def store_inv_def)

lemma processNewMessages_rejected:
  assumes "\<not> fst (processNewMessages s nd pw sb sa)"
  shows "snd (processNewMessages s nd pw sb sa) = s"
proof (cases nd)
  case None
  then show ?thesis by (simp add: processNewMessages_def)
next
  case (Some d)
  show ?thesis
  proof (cases "data_messages d = [] \<or> indexOfPageWith (data_messages d) pw = Some (- 1)")
    case True
    with Some show ?thesis
      by (auto simp: processNewMessages_def Let_def)
  next
    case False
    with Some have "fst (processNewMessages s nd pw sb sa)"
      by (simp add: processNewMessages_def Let_def)
    with assms show ?thesis by simp
  qed
qed

lemma processNewMessages_applied:
  assumes "fst (processNewMessages s nd pw sb sa)"
  obtains d where "nd = Some d" and "data_messages d \<noteq> []"
    and "messagesRef (snd (processNewMessages s nd pw sb sa)) =
           messagesRef (mergeBody s (data_messages d) pw sb sa (indexOfPageWith (data_messages d) pw))"
    and "messagesByIdRef (snd (processNewMessages s nd pw sb sa)) =
           messagesByIdRef (mergeBody s (data_messages d) pw sb sa (indexOfPageWith (data_messages d) pw))"
proof (cases nd)
  case None
  with assms show ?thesis by (simp add: processNewMessages_def)
next
  case (Some d)
  show ?thesis
  proof (cases "data_messages d = [] \<or> indexOfPageWith (data_messages d) pw = Some (- 1)")
    case True
    with Some have "\<not> fst (processNewMessages s nd pw sb sa)"
      by (auto simp: processNewMessages_def Let_def)
    with assms show ?thesis by simp
  next
    case False
    with Some have *:
      "messagesRef (snd (processNewMessages s nd pw sb sa)) =
           messagesRef (mergeBody s (data_messages d) pw sb sa (indexOfPageWith (data_messages d) pw))"
      "messagesByIdRef (snd (processNewMessages s nd pw sb sa)) =
           messagesByIdRef (mergeBody s (data_messages d) pw sb sa (indexOfPageWith (data_messages d) pw))"
      by (simp_all add: processNewMessages_def Let_def)
    from False have "data_messages d \<noteq> []" by simp
    from that [OF Some this *] show ?thesis .
  qed
qed

lemma mergeBody_store_inv:
  assumes "store_inv s"
  shows "store_inv (mergeBody s ms pw sb sa idx)"
proof -
  have "store_inv (s\<lparr>firstMessagesPageLoadedRef := b\<rparr>)" for b
    using assms by (simp add: store_inv_def)
  then show ?thesis
    unfolding mergeBody_def Let_def
    by (intro insertMessages_store_inv clearIfReplace_store_inv)
qed

lemma processNewMessages_store_inv:
  assumes "store_inv s"
  shows "store_inv (snd (processNewMessages s nd pw sb sa))"
proof (cases "fst (processNewMessages s nd pw sb sa)")
  case False
  then show ?thesis using assms by (simp add: processNewMessages_rejected)
next
  case True
  then obtain d where "nd = Some d" and "data_messages d \<noteq> []" and
    m: "messagesRef (snd (processNewMessages s nd pw sb sa)) =
           messagesRef (mergeBody s (data_messages d) pw sb sa (indexOfPageWith (data_messages d) pw))"
    and i: "messagesByIdRef (snd (processNewMessages s nd pw sb sa)) =
           messagesByIdRef (mergeBody s (data_messages d) pw sb sa (indexOfPageWith (data_messages d) pw))"
    by (rule processNewMessages_applied)
  show ?thesis
    using store_inv_fields [OF m i] mergeBody_store_inv [OF assms] by simp
qed

lemma mergePages_store_inv: "store_inv s \<Longrightarrow> store_inv (mergePages s cs)"
  by (induction cs arbitrary: s) (simp_all add: mergePage_def processNewMessages_store_inv)

lemma initial_store_inv: "store_inv initial_store"
  by (simp add: store_inv_def initial_store_def)

lemma addMessage_messages:
  "messagesRef (fst (addMessage t m acc)) =
     (if is_new (fst acc) m
      then (if t = Append then messagesRef (fst acc) @ [m] else m # messagesRef (fst acc))
      else messagesRef (fst acc))"
  by (simp add: addMessage_def is_new_def Let_def split: option.splits)

lemma addMessage_index_other:
  "k \<noteq> msg_id m \<Longrightarrow>
     messagesByIdRef (fst (addMessage t m acc)) k = messagesByIdRef (fst acc) k"
  by (simp add: addMessage_def Let_def split: option.splits)

lemma addMessage_index_from:
  "messagesByIdRef (fst (addMessage t m acc)) k = Some v \<Longrightarrow>
     messagesByIdRef (fst acc) k = Some v \<or> (v = m \<and> msg_id v = k)"
  by (auto simp: addMessage_def Let_def split: option.splits if_splits)

lemma addMessages_index_from:
  "messagesByIdRef (fst (addMessages t ms acc)) k = Some v \<Longrightarrow>
     messagesByIdRef (fst acc) k = Some v \<or> (v \<in> set ms \<and> msg_id v = k)"
proof (induction ms arbitrary: acc)
  case Nil
  then show ?case by simp
next
  case (Cons m ms)
  from Cons.prems have "messagesByIdRef (fst (addMessages t ms (addMessage t m acc))) k = Some v"
    by simp
  from Cons.IH [OF this] show ?case
    using addMessage_index_from [of t m acc k v] by auto
qed

lemma filter_is_new_step:
  assumes "msg_id m \<notin> msg_id ` set ms"
  shows "filter (is_new (fst (addMessage t m acc))) ms = filter (is_new (fst acc)) ms"
proof (rule filter_cong [OF refl])
  fix x assume "x \<in> set ms"
  with assms have "msg_id x \<noteq> msg_id m" by (metis imageI)
  then show "is_new (fst (addMessage t m acc)) x = is_new (fst acc) x"
    by (simp add: is_new_def addMessage_index_other)
qed

lemma addMessages_Append_messages:
  "distinct (map msg_id ms) \<Longrightarrow>
     messagesRef (fst (addMessages Append ms acc)) =
       messagesRef (fst acc) @ filter (is_new (fst acc)) ms"
proof (induction ms arbitrary: acc)
  case Nil
  then show ?case by simp
next
  case (Cons m ms)
  then have fresh: "msg_id m \<notin> msg_id ` set ms" and d: "distinct (map msg_id ms)"
    by simp_all
  show ?case
    using Cons.IH [OF d, of "addMessage Append m acc"] filter_is_new_step [OF fresh, of Append acc]
    by (simp add: addMessage_messages)
qed

lemma addMessages_Prepend_messages:
  "t \<noteq> Append \<Longrightarrow> distinct (map msg_id ms) \<Longrightarrow>
     messagesRef (fst (addMessages t ms acc)) =
       rev (filter (is_new (fst acc)) ms) @ messagesRef (fst acc)"
proof (induction ms arbitrary: acc)
  case Nil
  then show ?case by simp
next
  case (Cons m ms)
  then have fresh: "msg_id m \<notin> msg_id ` set ms" and d: "distinct (map msg_id ms)"
    by simp_all
  show ?case
    using Cons.IH [OF Cons.prems(1) d, of "addMessage t m acc"]
      filter_is_new_step [OF fresh, of t acc] Cons.prems(1)
    by (simp add: addMessage_messages)
qed

text \<open>The reload keeps the creation time of every slot when the page fits.\<close>

lemma reload_createdAt:
  assumes inv: "store_inv s"
    and d: "distinct (map msg_id ms)"
    and agree: "\<forall>m \<in> set ms. \<forall>e \<in> set (messagesRef s).
                  messagesByIdRef s (msg_id m) = Some e \<longrightarrow> createdAt e = createdAt m"
    and x: "x \<in> set (messagesRef s) \<or> (x \<in> set ms \<and> is_new s x)"
  shows "createdAt (reload (snd (addMessages t ms (s, {}))) (fst (addMessages t ms (s, {}))) x)
           = createdAt x"
proof (cases "messagesByIdRef (fst (addMessages t ms (s, {}))) (msg_id x)")
  case None
  then show ?thesis by (simp add: reload_def)
next
  case (Some v)
  have "createdAt v = createdAt x"
  proof -
    from addMessages_index_from [OF Some]
    consider "messagesByIdRef s (msg_id x) = Some v" | "v \<in> set ms" "msg_id v = msg_id x"
      by auto
    then show ?thesis
    proof cases
      case 1
      from x show ?thesis
      proof
        assume "x \<in> set (messagesRef s)"
        with inv have "messagesByIdRef s (msg_id x) = Some x" by (simp add: store_inv_def)
        with 1 show ?thesis by simp
      next
        assume "x \<in> set ms \<and> is_new s x"
        with 1 show ?thesis by (simp add: is_new_def)
      qed
    next
      case 2
      from x show ?thesis
      proof
        assume xs: "x \<in> set (messagesRef s)"
        with inv have "messagesByIdRef s (msg_id v) = Some x" using 2 by (simp add: store_inv_def)
        with agree 2 xs show ?thesis by auto
      next
        assume "x \<in> set ms \<and> is_new s x"
        with d 2 have "v = x" by (auto simp: distinct_map inj_on_def)
        then show ?thesis by simp
      qed
    qed
  qed
  with Some show ?thesis by (simp add: reload_def)
qed

text \<open>
  The ids and creation times of the sequence after the loop and the reload, for a page
  with distinct ids that repeats known messages with the creation time the store has.
\<close>

lemma insertMessages_keys:
  assumes inv: "store_inv s"
    and d: "distinct (map msg_id ms)"
    and agree: "\<forall>m \<in> set ms. \<forall>e \<in> set (messagesRef s).
                  messagesByIdRef s (msg_id m) = Some e \<longrightarrow> createdAt e = createdAt m"
  shows "map key (messagesRef (insertMessages t ms s)) =
           (if t = Append
            then map key (messagesRef s) @ map key (filter (is_new s) ms)
            else map key (filter (is_new s) ms) @ map key (messagesRef s))"
proof -
  define vs where "vs = (if t = Append then ms else rev ms)"
  define r where "r = addMessages t vs (s, {})"
  have dv: "distinct (map msg_id vs)" using d by (simp add: vs_def distinct_rev rev_map [symmetric])
  have av: "\<forall>m \<in> set vs. \<forall>e \<in> set (messagesRef s).
                  messagesByIdRef s (msg_id m) = Some e \<longrightarrow> createdAt e = createdAt m"
    using agree by (simp add: vs_def)
  have "loop_inv r"
    unfolding r_def using inv by (intro addMessages_loop_inv store_inv_loop_inv)
  then have li: "loop_inv (fst r, snd r)" by simp
  have seq: "messagesRef (fst r) =
               (if t = Append then messagesRef s @ filter (is_new s) ms
                else filter (is_new s) ms @ messagesRef s)"
  proof (cases "t = Append")
    case True
    then show ?thesis
      using addMessages_Append_messages [OF dv, of "(s, {})"] by (simp add: r_def vs_def)
  next
    case False
    have "messagesRef (fst (addMessages t vs (s, {}))) =
            rev (filter (is_new s) vs) @ messagesRef s"
      using addMessages_Prepend_messages [OF False dv, of "(s, {})"] by simp
    with False show ?thesis by (simp add: r_def vs_def rev_filter)
  qed
  have keep: "key (reload (snd r) (fst r) x) = key x"
    if "x \<in> set (messagesRef (fst r))" for x
  proof -
    from that seq have "x \<in> set (messagesRef s) \<or> (x \<in> set vs \<and> is_new s x)"
      by (auto simp: vs_def split: if_splits)
    from reload_createdAt [OF inv dv av this, of t]
    have "createdAt (reload (snd r) (fst r) x) = createdAt x" by (simp add: r_def)
    moreover have "msg_id (reload (snd r) (fst r) x) = msg_id x"
      using li that by (rule reload_id)
    ultimately show ?thesis by (simp add: key_def)
  qed
  have "map key (messagesRef (insertMessages t ms s)) =
          map key (map (reload (snd r) (fst r)) (messagesRef (fst r)))"
    by (simp add: insertMessages_def Let_def refreshUpdated_messages r_def vs_def)
  also have "\<dots> = map key (messagesRef (fst r))"
    unfolding map_map by (rule map_cong [OF refl]) (simp add: keep)
  finally show ?thesis by (simp add: seq)
qed

lemma newest_first_key:
  "newest_first ms = sorted_wrt (\<lambda>a b. snd b \<le> snd a) (map key ms)"
  by (simp add: newest_first_def sorted_wrt_map key_def)

lemma stretch_sorted:
  assumes "is_timeline T" and "sublist W T"
  shows "sorted_wrt (\<lambda>a b. snd b \<le> snd a) W"
proof -
  from assms(2) obtain a b where "T = a @ W @ b" unfolding sublist_def by blast
  with assms(1) show ?thesis by (simp add: is_timeline_def sorted_wrt_append)
qed

lemmas merge_eval =
  mergePage_def processNewMessages_def mergeBody_def insertMessages_def clearIfReplace_def
  finalAddType_def chooseAddType_def nextFirstPageLoaded_def indexOfPageWith_def
  addMessage_def refreshUpdated_def head_id_def tail_id_def truthy_str_def truthy_num_def
  page_of_def message_at_def initial_store_def Let_def

section \<open>Stretches of one timeline\<close>

lemma split_unique:
  "distinct (xs @ e # ys) \<Longrightarrow> xs @ e # ys = xs' @ e # ys' \<Longrightarrow> xs = xs' \<and> ys = ys'"
proof (induction xs arbitrary: xs')
  case Nil
  then show ?case by (cases xs') auto
next
  case (Cons x xs)
  note dist = Cons.prems(1) and eq = Cons.prems(2) and IH = Cons.IH
  show ?case
  proof (cases xs')
    case Nil
    with dist eq show ?thesis by auto
  next
    case (Cons x' zs)
    from dist have d: "distinct (xs @ e # ys)" by simp
    from eq Cons have "x = x'" and eq': "xs @ e # ys = zs @ e # ys'" by simp_all
    from IH [OF d eq'] \<open>x = x'\<close> Cons show ?thesis by simp
  qed
qed

lemma same_id_same_key:
  assumes "distinct (map fst T)" and "a \<in> set T" and "b \<in> set T" and "fst a = fst b"
  shows "a = b"
  using assms by (meson distinct_map inj_on_eq_iff)

text \<open>
  Two stretches of a timeline, the last element of the first lying in the second: what
  the first adds in front of the second is again a stretch.
\<close>

lemma stretch_in_front:
  assumes d: "distinct (map fst T)" and P: "sublist P T" and W: "sublist W T"
    and ne: "P \<noteq> []" and last: "fst (last P) \<in> fst ` set W"
  shows "sublist (filter (\<lambda>k. fst k \<notin> fst ` set W) P @ W) T"
proof -
  let ?new = "\<lambda>k. fst k \<notin> fst ` set W"
  from P obtain a b where T1: "T = a @ P @ b" unfolding sublist_def by blast
  from W obtain a2 b2 where T2: "T = a2 @ W @ b2" unfolding sublist_def by blast
  from ne have "P = butlast P @ [last P]" by simp
  then obtain P' e where Pe: "P = P' @ [e]" by blast
  from last Pe have "fst e \<in> fst ` set W" by simp
  then obtain w where w: "w \<in> set W" and we: "fst w = fst e" by (metis imageE)
  have "w \<in> set T" using w T2 by simp
  moreover have "e \<in> set T" using Pe T1 by simp
  ultimately have "w = e" using we by (rule same_id_same_key [OF d])
  with w have "e \<in> set W" by simp
  then obtain W1 W2 where We: "W = W1 @ e # W2" by (meson split_list)
  have dT: "distinct T" using d by (simp add: distinct_map)
  have eq: "(a @ P') @ e # b = (a2 @ W1) @ e # (W2 @ b2)"
    using T1 T2 Pe We by simp
  have dist: "distinct ((a @ P') @ e # b)" using dT T1 Pe by simp
  have both: "a @ P' = a2 @ W1 \<and> b = W2 @ b2"
    using dist eq by (rule split_unique)
  then have "a @ P' = a2 @ W1" by simp
  then have "\<exists>us. a = a2 @ us \<and> us @ P' = W1 \<or> a @ us = a2 \<and> P' = us @ W1"
    by (simp only: append_eq_append_conv2)
  then obtain us where "a = a2 @ us \<and> us @ P' = W1 \<or> a @ us = a2 \<and> P' = us @ W1"
    by (rule exE)
  then show ?thesis
  proof
    assume "a = a2 @ us \<and> us @ P' = W1"
    then have "W = us @ P' @ e # W2" using We by simp
    then have "set P \<subseteq> set W" using Pe by auto
    then have "\<forall>k \<in> set P. \<not> ?new k" by blast
    then have "filter ?new P = []" by (simp only: filter_empty_conv)
    with W show ?thesis by simp
  next
    assume c: "a @ us = a2 \<and> P' = us @ W1"
    then have T3: "T = a @ us @ W @ b2" using T2 by simp
    have "distinct (map fst (a @ us @ W @ b2))" using d T3 by simp
    then have "fst ` set us \<inter> fst ` set W = {}" by simp blast
    then have "\<forall>k \<in> set us. ?new k" by blast
    then have keep: "filter ?new us = us" by (simp only: filter_id_conv)
    have "set (W1 @ [e]) \<subseteq> set W" using We by auto
    then have "\<forall>k \<in> set (W1 @ [e]). \<not> ?new k" by blast
    then have drop: "filter ?new (W1 @ [e]) = []" by (simp only: filter_empty_conv)
    have "P = us @ (W1 @ [e])" using Pe c by simp
    then have "filter ?new P = filter ?new us @ filter ?new (W1 @ [e])"
      by (simp only: filter_append)
    then have "filter ?new P = us" by (simp only: keep drop append_Nil2)
    moreover have "sublist (us @ W) (a @ (us @ W) @ b2)" by (rule sublist_appendI)
    ultimately show ?thesis using T3 by simp
  qed
qed

text \<open>The mirror image: the first element of the first stretch lies in the second.\<close>

lemma stretch_behind:
  assumes d: "distinct (map fst T)" and P: "sublist P T" and W: "sublist W T"
    and ne: "P \<noteq> []" and first: "fst (hd P) \<in> fst ` set W"
  shows "sublist (W @ filter (\<lambda>k. fst k \<notin> fst ` set W) P) T"
proof -
  have "sublist (filter (\<lambda>k. fst k \<notin> fst ` set (rev W)) (rev P) @ rev W) (rev T)"
  proof (rule stretch_in_front)
    show "distinct (map fst (rev T))" using d by (simp add: rev_map [symmetric])
    show "sublist (rev P) (rev T)" using P by simp
    show "sublist (rev W) (rev T)" using W by simp
    show "rev P \<noteq> []" using ne by simp
    show "fst (last (rev P)) \<in> fst ` set (rev W)" using first ne by (simp add: last_rev)
  qed
  then have "sublist (rev (W @ filter (\<lambda>k. fst k \<notin> fst ` set W) P)) (rev T)"
    by (simp add: rev_filter)
  then show ?thesis by (simp only: sublist_rev)
qed

section \<open>The index holds the ids of the sequence\<close>

lemma addMessage_tight:
  assumes "dom (messagesByIdRef (fst acc)) = msg_id ` set (messagesRef (fst acc))"
  shows "dom (messagesByIdRef (fst (addMessage t m acc)))
           = msg_id ` set (messagesRef (fst (addMessage t m acc)))"
proof (cases "messagesByIdRef (fst acc) (msg_id m)")
  case None
  with assms show ?thesis by (auto simp: addMessage_def Let_def)
next
  case (Some e)
  then have "msg_id m \<in> dom (messagesByIdRef (fst acc))" by blast
  then have "insert (msg_id m) (dom (messagesByIdRef (fst acc))) = dom (messagesByIdRef (fst acc))"
    by blast
  with Some assms show ?thesis by (simp add: addMessage_def Let_def)
qed

lemma addMessages_tight:
  "dom (messagesByIdRef (fst acc)) = msg_id ` set (messagesRef (fst acc)) \<Longrightarrow>
   dom (messagesByIdRef (fst (addMessages t ms acc)))
     = msg_id ` set (messagesRef (fst (addMessages t ms acc)))"
  by (induction ms arbitrary: acc) (simp_all add: addMessage_tight)

lemma insertMessages_tight:
  assumes "store_inv s" and "index_tight s"
  shows "index_tight (insertMessages t ms s)"
proof -
  define r where "r = addMessages t (if t = Append then ms else rev ms) (s, {})"
  have "loop_inv r"
    unfolding r_def using assms(1) by (intro addMessages_loop_inv store_inv_loop_inv)
  then have "loop_inv (fst r, snd r)" by simp
  then have ids: "map msg_id (messagesRef (refreshUpdated (snd r) (fst r)))
                    = map msg_id (messagesRef (fst r))"
    by (rule refreshUpdated_ids)
  have "dom (messagesByIdRef (fst r)) = msg_id ` set (messagesRef (fst r))"
    unfolding r_def using assms(2) by (intro addMessages_tight) (simp add: index_tight_def)
  moreover have "msg_id ` set (messagesRef (refreshUpdated (snd r) (fst r)))
                   = msg_id ` set (messagesRef (fst r))"
    using ids by (metis set_map)
  ultimately show ?thesis
    by (simp add: index_tight_def insertMessages_def Let_def r_def)
qed

lemma mergeBody_tight:
  assumes "store_inv s" and "index_tight s"
  shows "index_tight (mergeBody s ms pw sb sa idx)"
proof -
  have "store_inv (clearIfReplace t (s\<lparr>firstMessagesPageLoadedRef := b\<rparr>))" for t b
    using assms(1) by (simp add: store_inv_def clearIfReplace_def)
  moreover have "index_tight (clearIfReplace t (s\<lparr>firstMessagesPageLoadedRef := b\<rparr>))" for t b
    using assms(2) by (simp add: index_tight_def clearIfReplace_def)
  ultimately show ?thesis
    unfolding mergeBody_def Let_def by (rule insertMessages_tight)
qed

lemma index_tight_fields:
  "messagesRef a = messagesRef b \<Longrightarrow> messagesByIdRef a = messagesByIdRef b
     \<Longrightarrow> index_tight a = index_tight b"
  by (simp add: index_tight_def)

lemma processNewMessages_tight:
  assumes "store_inv s" and "index_tight s"
  shows "index_tight (snd (processNewMessages s nd pw sb sa))"
proof (cases "fst (processNewMessages s nd pw sb sa)")
  case False
  then show ?thesis using assms by (simp add: processNewMessages_rejected)
next
  case True
  then obtain d where "nd = Some d" and "data_messages d \<noteq> []" and
    m: "messagesRef (snd (processNewMessages s nd pw sb sa)) =
           messagesRef (mergeBody s (data_messages d) pw sb sa (indexOfPageWith (data_messages d) pw))"
    and i: "messagesByIdRef (snd (processNewMessages s nd pw sb sa)) =
           messagesByIdRef (mergeBody s (data_messages d) pw sb sa (indexOfPageWith (data_messages d) pw))"
    by (rule processNewMessages_applied)
  show ?thesis
    using index_tight_fields [OF m i] mergeBody_tight [OF assms] by simp
qed

section \<open>What a page that answers its request looks like\<close>

lemma slice_count_falsy: "\<not> truthy_num v \<Longrightarrow> slice_count v = 0"
  by (cases v) (simp_all add: truthy_num_def slice_count_def)

lemma stretch_distinct:
  assumes "distinct (map fst T)" and "sublist P T"
  shows "distinct (map fst P)"
proof -
  from assms(2) obtain a b where "T = a @ P @ b" unfolding sublist_def by blast
  with assms(1) show ?thesis by simp
qed

lemma fits_page:
  assumes "fitsTimeline T c" and "call_data c = Some d"
  shows "sublist (map key (data_messages d)) T"
  using assms by (simp add: fitsTimeline_def Let_def)

lemma fits_pivot:
  assumes "fitsTimeline T c" and "call_data c = Some d" and "call_pageWith c = Some p"
    and "p \<noteq> []"
  shows "dropWhile (\<lambda>k. fst k \<noteq> p) (map key (data_messages d)) \<noteq> []"
    and "int (length (takeWhile (\<lambda>k. fst k \<noteq> p) (map key (data_messages d))))
           \<le> slice_count (call_sliceAfter c)"
    and "int (length (dropWhile (\<lambda>k. fst k \<noteq> p) (map key (data_messages d)))) - 1
           \<le> slice_count (call_sliceBefore c)"
  using assms by (simp_all add: fitsTimeline_def Let_def)

text \<open>No older slice asked for: the pivot is the last message of the page.\<close>

lemma fits_pivot_last:
  assumes fit: "fitsTimeline T c" and d: "call_data c = Some d"
    and p: "call_pageWith c = Some p" "p \<noteq> []"
    and none: "\<not> truthy_num (call_sliceBefore c)"
  shows "data_messages d \<noteq> [] \<and> msg_id (last (data_messages d)) = p"
proof -
  let ?ks = "map key (data_messages d)"
  let ?rest = "dropWhile (\<lambda>k. fst k \<noteq> p) ?ks"
  have ne: "?rest \<noteq> []" using fit d p by (rule fits_pivot)
  have "int (length ?rest) - 1 \<le> slice_count (call_sliceBefore c)"
    using fit d p by (rule fits_pivot)
  with none have "int (length ?rest) - 1 \<le> 0" by (simp add: slice_count_falsy)
  moreover have "0 < length ?rest" using ne by simp
  ultimately have "length ?rest = 1" by arith
  then obtain k where k: "?rest = [k]" by (cases ?rest) simp_all
  have "\<not> fst (hd ?rest) \<noteq> p" using ne by (rule hd_dropWhile)
  with k have kp: "fst k = p" by simp
  have "?ks = takeWhile (\<lambda>k. fst k \<noteq> p) ?ks @ ?rest" by simp
  with k have ks: "?ks = takeWhile (\<lambda>k. fst k \<noteq> p) ?ks @ [k]" by simp
  then have "?ks \<noteq> []" by (metis snoc_eq_iff_butlast)
  then have page: "data_messages d \<noteq> []" by simp
  from ks have "last ?ks = k" by (metis last_snoc)
  with page have "key (last (data_messages d)) = k" by (simp add: last_map)
  then have "fst k = msg_id (last (data_messages d))" by (auto simp: key_def)
  with kp page show ?thesis by simp
qed

text \<open>No newer slice asked for: the pivot is the first message of the page.\<close>

lemma fits_pivot_first:
  assumes fit: "fitsTimeline T c" and d: "call_data c = Some d"
    and p: "call_pageWith c = Some p" "p \<noteq> []"
    and none: "\<not> truthy_num (call_sliceAfter c)"
  shows "data_messages d \<noteq> [] \<and> msg_id (hd (data_messages d)) = p"
proof -
  let ?ks = "map key (data_messages d)"
  let ?rest = "dropWhile (\<lambda>k. fst k \<noteq> p) ?ks"
  have ne: "?rest \<noteq> []" using fit d p by (rule fits_pivot)
  have "int (length (takeWhile (\<lambda>k. fst k \<noteq> p) ?ks)) \<le> slice_count (call_sliceAfter c)"
    using fit d p by (rule fits_pivot)
  with none have "takeWhile (\<lambda>k. fst k \<noteq> p) ?ks = []" by (simp add: slice_count_falsy)
  then have "?rest = ?ks" by (metis append_Nil takeWhile_dropWhile_id)
  with ne have page: "?ks \<noteq> []" and "\<not> fst (hd ?ks) \<noteq> p"
    using hd_dropWhile [OF ne] by simp_all
  then show ?thesis by (simp add: hd_map key_def)
qed

section \<open>A merge keeps the sequence a stretch of the timeline\<close>

lemma fst_key [simp]: "fst (key m) = msg_id m"
  by (simp add: key_def)

lemma snd_key [simp]: "snd (key m) = createdAt m"
  by (simp add: key_def)

lemma fresh_keys:
  assumes tight: "index_tight s" and ids: "\<forall>m \<in> set ms. msg_id m \<noteq> []"
  shows "map key (filter (is_new s) ms) =
           filter (\<lambda>k. fst k \<notin> fst ` set (map key (messagesRef s))) (map key ms)"
proof -
  have "is_new s m = ((\<lambda>k. fst k \<notin> fst ` set (map key (messagesRef s))) \<circ> key) m"
    if "m \<in> set ms" for m
  proof -
    have "messagesByIdRef s (msg_id m) = None \<longleftrightarrow> msg_id m \<notin> msg_id ` set (messagesRef s)"
      using tight unfolding index_tight_def by (metis domIff)
    moreover have "msg_id m \<noteq> []" using ids that by simp
    ultimately show ?thesis by (simp add: is_new_def image_image)
  qed
  then have "filter (is_new s) ms =
          filter ((\<lambda>k. fst k \<notin> fst ` set (map key (messagesRef s))) \<circ> key) ms"
    by (intro filter_cong refl)
  then show ?thesis by (simp only: filter_map)
qed

lemma chooseAddType_Append:
  assumes "chooseAddType s ms pw sb sa = Append"
  shows "messagesRef s = [] \<or>
         (truthy_str pw \<and> tail_id s = pw \<and> truthy_num sb \<and> \<not> (head_id s = pw \<and> truthy_num sa))"
  using assms by (simp add: chooseAddType_def split: if_splits)

lemma chooseAddType_Prepend:
  assumes "chooseAddType s ms pw sb sa = Prepend"
  shows "messagesRef s \<noteq> [] \<and>
         (\<not> truthy_str pw \<and> messagesByIdRef s (msg_id (last ms)) \<noteq> None \<or>
          truthy_str pw \<and> head_id s = pw \<and> truthy_num sa)"
  using assms by (simp add: chooseAddType_def split: if_splits)

lemma head_id_held: "head_id s = Some p \<Longrightarrow> p \<in> msg_id ` set (messagesRef s)"
  by (cases "messagesRef s") (auto simp: head_id_def)

lemma tail_id_held: "tail_id s = Some p \<Longrightarrow> p \<in> msg_id ` set (messagesRef s)"
  by (cases "messagesRef s = []") (auto simp: tail_id_def)

lemma truthy_str_Some: "truthy_str pw \<Longrightarrow> \<exists>p. pw = Some p \<and> p \<noteq> []"
  by (cases pw) (simp_all add: truthy_str_def)

lemma mergePage_stretch:
  assumes tl: "is_timeline T" and inv: "store_inv s" and tight: "index_tight s"
    and W: "sublist (map key (messagesRef s)) T"
    and fit: "fitsTimeline T c"
    and one: "messagesRef s = [] \<or> oneSided c"
  shows "sublist (map key (messagesRef (snd (mergePage s c)))) T"
proof (cases "fst (mergePage s c)")
  case False
  then show ?thesis using W by (simp add: mergePage_def processNewMessages_rejected)
next
  case True
  let ?pw = "call_pageWith c" and ?sb = "call_sliceBefore c" and ?sa = "call_sliceAfter c"
  from True obtain d where d: "call_data c = Some d" and ne: "data_messages d \<noteq> []"
    and m: "messagesRef (snd (mergePage s c)) =
           messagesRef (mergeBody s (data_messages d) ?pw ?sb ?sa
              (indexOfPageWith (data_messages d) ?pw))"
    and "messagesByIdRef (snd (mergePage s c)) =
           messagesByIdRef (mergeBody s (data_messages d) ?pw ?sb ?sa
              (indexOfPageWith (data_messages d) ?pw))"
    unfolding mergePage_def by (rule processNewMessages_applied)
  define ms where "ms = data_messages d"
  define P where "P = map key ms"
  define t where "t = chooseAddType s ms ?pw ?sb ?sa"
  define s2 where
    "s2 = clearIfReplace t (s\<lparr>firstMessagesPageLoadedRef :=
            nextFirstPageLoaded s ?pw ?sb ?sa (indexOfPageWith ms ?pw)\<rparr>)"
  define W2 where "W2 = map key (messagesRef s2)"
  have dT: "distinct (map fst T)" and noempty: "[] \<notin> fst ` set T"
    using tl by (simp_all add: is_timeline_def)
  have Pst: "sublist P T" using fit d by (simp add: P_def ms_def fits_page)
  have Pne: "P \<noteq> []" using ne by (simp add: P_def ms_def)
  have body: "mergeBody s ms ?pw ?sb ?sa (indexOfPageWith ms ?pw)
                = insertMessages (finalAddType t) ms s2"
    by (simp add: mergeBody_def Let_def t_def s2_def)
  have seq2: "messagesRef s2 = (if t = Replace then [] else messagesRef s)"
    and idx2: "messagesByIdRef s2 = (if t = Replace then Map.empty else messagesByIdRef s)"
    by (simp_all add: s2_def clearIfReplace_def)
  have inv2: "store_inv s2" using inv by (simp add: store_inv_def seq2 idx2)
  have tight2: "index_tight s2" using tight by (simp add: index_tight_def seq2 idx2)
  have W2st: "sublist W2 T" using W by (simp add: W2_def seq2)
  have dP: "distinct (map msg_id ms)"
    using stretch_distinct [OF dT Pst] by (simp add: P_def comp_def)
  have inT: "key x \<in> set T" if "x \<in> set ms" for x
    using that set_mono_sublist [OF Pst] by (auto simp: P_def)
  have ids: "\<forall>x \<in> set ms. msg_id x \<noteq> []"
  proof
    fix x assume "x \<in> set ms"
    then have "fst (key x) \<in> fst ` set T" using inT by blast
    then have "msg_id x \<in> fst ` set T" by simp
    with noempty show "msg_id x \<noteq> []" by metis
  qed
  have agree2: "\<forall>x \<in> set ms. \<forall>e \<in> set (messagesRef s2).
                  messagesByIdRef s2 (msg_id x) = Some e \<longrightarrow> createdAt e = createdAt x"
  proof (intro ballI impI)
    fix x e assume x: "x \<in> set ms" and e: "e \<in> set (messagesRef s2)"
      and look: "messagesByIdRef s2 (msg_id x) = Some e"
    from inv2 look have "msg_id e = msg_id x" by (simp add: store_inv_def)
    moreover have "key e \<in> set T"
      using e set_mono_sublist [OF W2st] by (auto simp: W2_def)
    ultimately have "key e = key x"
      using inT [OF x] by (intro same_id_same_key [OF dT]) simp_all
    then show "createdAt e = createdAt x" by (simp add: key_def)
  qed
  let ?F = "filter (\<lambda>k. fst k \<notin> fst ` set W2) P"
  have keys: "map key (messagesRef (snd (mergePage s c))) =
                (if finalAddType t = Append then W2 @ ?F else ?F @ W2)"
    unfolding m ms_def [symmetric] body
    using insertMessages_keys [OF inv2 dP agree2, of "finalAddType t"]
      fresh_keys [OF tight2 ids]
    by (simp add: W2_def P_def)
  have held: "p \<in> msg_id ` set (messagesRef s) \<Longrightarrow> p \<in> fst ` set (map key (messagesRef s))" for p
    by (simp add: image_image)
  show ?thesis
  proof (cases t)
    case Replace
    then have "W2 = []" by (simp add: W2_def seq2)
    with Replace keys Pst show ?thesis by (simp add: finalAddType_def)
  next
    case Append
    then have W2W: "W2 = map key (messagesRef s)" by (simp add: W2_def seq2)
    show ?thesis
    proof (cases "messagesRef s = []")
      case True
      with Append keys Pst W2W show ?thesis by (simp add: finalAddType_def)
    next
      case False
      with Append chooseAddType_Append [of s ms ?pw ?sb ?sa]
      have tp: "truthy_str ?pw" and tail: "tail_id s = ?pw" and tb: "truthy_num ?sb"
        by (simp_all add: t_def)
      from tp obtain p where p: "?pw = Some p" "p \<noteq> []" using truthy_str_Some by blast
      from one False tp tb have "\<not> truthy_num ?sa" by (simp add: oneSided_def)
      from fits_pivot_first [OF fit d p this] have "msg_id (hd ms) = p" by (simp add: ms_def)
      then have "fst (hd P) = p" using ne by (simp add: P_def ms_def hd_map)
      moreover have "p \<in> fst ` set W2"
        using tail_id_held [of s p] tail p unfolding W2W by (simp add: image_image)
      ultimately have "fst (hd P) \<in> fst ` set W2" by simp
      from stretch_behind [OF dT Pst W2st Pne this] Append keys show ?thesis
        by (simp add: finalAddType_def)
    qed
  next
    case Prepend
    then have W2W: "W2 = map key (messagesRef s)" by (simp add: W2_def seq2)
    from Prepend chooseAddType_Prepend [of s ms ?pw ?sb ?sa]
    have sne: "messagesRef s \<noteq> []"
      and how: "\<not> truthy_str ?pw \<and> messagesByIdRef s (msg_id (last ms)) \<noteq> None \<or>
                truthy_str ?pw \<and> head_id s = ?pw \<and> truthy_num ?sa"
      by (simp_all add: t_def)
    have "msg_id (last ms) \<in> msg_id ` set (messagesRef s)"
      using how
    proof
      assume "\<not> truthy_str ?pw \<and> messagesByIdRef s (msg_id (last ms)) \<noteq> None"
      then have "msg_id (last ms) \<in> dom (messagesByIdRef s)" by blast
      with tight show ?thesis by (simp add: index_tight_def)
    next
      assume h: "truthy_str ?pw \<and> head_id s = ?pw \<and> truthy_num ?sa"
      then obtain p where p: "?pw = Some p" "p \<noteq> []" using truthy_str_Some by blast
      from one sne h have "\<not> truthy_num ?sb" by (simp add: oneSided_def)
      from fits_pivot_last [OF fit d p this] have "msg_id (last ms) = p" by (simp add: ms_def)
      moreover have "p \<in> msg_id ` set (messagesRef s)"
        using head_id_held [of s p] h p by simp
      ultimately show ?thesis by simp
    qed
    then have "fst (last P) \<in> fst ` set W2"
      using ne unfolding W2W by (simp add: P_def ms_def last_map image_image)
    from stretch_in_front [OF dT Pst W2st Pne this] Prepend keys show ?thesis
      by (simp add: finalAddType_def)
  qed
qed

lemma mergePage_no_page:
  assumes "\<not> carriesPage c"
  shows "snd (mergePage s c) = s"
proof (cases "call_data c")
  case None
  then show ?thesis by (simp add: mergePage_def processNewMessages_def)
next
  case (Some d)
  with assms have "data_messages d = []" by (simp add: carriesPage_def)
  with Some show ?thesis by (simp add: mergePage_def processNewMessages_def)
qed

lemma mergePages_stretch:
  assumes tl: "is_timeline T"
  shows "store_inv s \<Longrightarrow> index_tight s \<Longrightarrow> sublist (map key (messagesRef s)) T \<Longrightarrow>
         started \<or> messagesRef s = [] \<Longrightarrow> consistentPivots T started cs \<Longrightarrow>
         sublist (map key (messagesRef (mergePages s cs))) T"
proof (induction cs arbitrary: s started)
  case Nil
  then show ?case by simp
next
  case (Cons c cs)
  let ?s = "snd (mergePage s c)"
  from Cons.prems(5) have fit: "fitsTimeline T c" and side: "\<not> started \<or> oneSided c"
    and rest: "consistentPivots T (started \<or> carriesPage c) cs"
    by simp_all
  from Cons.prems(4) side have one: "messagesRef s = [] \<or> oneSided c" by blast
  have inv: "store_inv ?s"
    using Cons.prems(1) by (simp add: mergePage_def processNewMessages_store_inv)
  have tight: "index_tight ?s"
    using Cons.prems(1,2) by (simp add: mergePage_def processNewMessages_tight)
  have stretch: "sublist (map key (messagesRef ?s)) T"
    using tl Cons.prems(1,2,3) fit one by (rule mergePage_stretch)
  have begun: "(started \<or> carriesPage c) \<or> messagesRef ?s = []"
  proof (cases "started \<or> carriesPage c")
    case True
    then show ?thesis by simp
  next
    case False
    then have "?s = s" by (simp add: mergePage_no_page)
    with False Cons.prems(4) show ?thesis by simp
  qed
  from Cons.IH [OF inv tight stretch begun rest] show ?case by simp
qed

lemma initial_store_tight: "index_tight initial_store"
  by (simp add: index_tight_def initial_store_def)

lemmas timeline_eval =
  is_timeline_def fitsTimeline_def oneSided_def carriesPage_def slice_count_def key_def
  sublist_Cons_right

text \<open>
  C1 (as the code has it). Whatever pages are merged into the initially empty store, the
  sequence never holds two messages with the same id. When every page is the stretch of
  one server timeline that its request asks for (around the pivot, at most \<open>sliceAfter\<close>
  newer and \<open>sliceBefore\<close> older messages) and no call after the first page asks for
  both sides of its pivot, the sequence is itself a stretch of that timeline and so stays
  in one chronological order, newest first.
\<close>

theorem mergePages_distinct_and_ordered:
  "distinct (map msg_id (messagesRef (mergePages initial_store calls))) \<and>
   (is_timeline T \<and> consistentPivots T False calls \<longrightarrow>
      sublist (map key (messagesRef (mergePages initial_store calls))) T \<and>
      newest_first (messagesRef (mergePages initial_store calls)))"
proof -
  have "store_inv (mergePages initial_store calls)"
    by (rule mergePages_store_inv [OF initial_store_inv])
  then have ids: "distinct (map msg_id (messagesRef (mergePages initial_store calls)))"
    by (simp add: store_inv_def)
  have ordered: "sublist (map key (messagesRef (mergePages initial_store calls))) T \<and>
      newest_first (messagesRef (mergePages initial_store calls))"
    if tl: "is_timeline T" and fit: "consistentPivots T False calls"
  proof -
    have "sublist (map key (messagesRef initial_store)) T"
      and "False \<or> messagesRef initial_store = []"
      by (simp_all add: initial_store_def)
    from mergePages_stretch [OF tl initial_store_inv initial_store_tight this fit]
    have st: "sublist (map key (messagesRef (mergePages initial_store calls))) T" .
    from stretch_sorted [OF tl st] st show ?thesis by (simp add: newest_first_key)
  qed
  from ids ordered show ?thesis by blast
qed

theorem mergePages_distinct_and_ordered_witness:
  "is_timeline example_timeline \<and> consistentPivots example_timeline False example_calls \<and>
   map msg_id (messagesRef (mergePages initial_store example_calls))
     = [''m4'', ''m3'', ''m2'', ''m1''] \<and>
   distinct (map msg_id (messagesRef (mergePages initial_store example_calls))) \<and>
   newest_first (messagesRef (mergePages initial_store example_calls))"
proof -
  have tl: "is_timeline example_timeline"
    by (simp add: example_timeline_def is_timeline_def)
  have fit: "consistentPivots example_timeline False example_calls"
    by (simp add: example_calls_def example_timeline_def timeline_eval truthy_str_def
        truthy_num_def page_of_def message_at_def)
  have run: "map msg_id (messagesRef (mergePages initial_store example_calls))
               = [''m4'', ''m3'', ''m2'', ''m1'']"
    by (simp add: example_calls_def merge_eval)
  from mergePages_distinct_and_ordered [of example_calls example_timeline] tl fit run
  show ?thesis by blast
qed

text \<open>
  The claim as stated fails. On the timeline \<open>m7, \<dots>, m1\<close> the page around \<open>m4\<close> is
  merged into the empty store, which then holds \<open>[m5, m4, m3]\<close>. The second call asks for
  both sides of the head \<open>m5\<close> and its page is the stretch \<open>m7, \<dots>, m1\<close>, which holds the
  pivot. The mode is prepend, so the older messages \<open>m2\<close> and \<open>m1\<close> are put in front of
  \<open>m5\<close> as well: the sequence is no longer in chronological order.
\<close>

theorem mergePages_two_sided_counterexample:
  "is_timeline long_timeline \<and> fitsTimeline long_timeline around_m4 \<and>
   fitsTimeline long_timeline around_head \<and>
   map msg_id (messagesRef (mergePages initial_store [around_m4])) = [''m5'', ''m4'', ''m3''] \<and>
   map msg_id (messagesRef (mergePages initial_store [around_m4, around_head]))
     = [''m7'', ''m6'', ''m2'', ''m1'', ''m5'', ''m4'', ''m3''] \<and>
   \<not> newest_first (messagesRef (mergePages initial_store [around_m4, around_head]))"
proof -
  have tl: "is_timeline long_timeline"
    by (simp add: long_timeline_def is_timeline_def)
  have f1: "fitsTimeline long_timeline around_m4"
    by (simp add: around_m4_def long_timeline_def timeline_eval page_of_def message_at_def)
  have f2: "fitsTimeline long_timeline around_head"
    by (simp add: around_head_def long_timeline_def timeline_eval page_of_def message_at_def)
  have r1: "map msg_id (messagesRef (mergePages initial_store [around_m4]))
              = [''m5'', ''m4'', ''m3'']"
    by (simp add: around_m4_def merge_eval)
  have r2: "map createdAt (messagesRef (mergePages initial_store [around_m4, around_head]))
              = [70, 60, 20, 10, 50, 40, 30] \<and>
            map msg_id (messagesRef (mergePages initial_store [around_m4, around_head]))
              = [''m7'', ''m6'', ''m2'', ''m1'', ''m5'', ''m4'', ''m3'']"
    by (simp add: around_m4_def around_head_def merge_eval)
  have "newest_first ms \<longleftrightarrow> sorted_wrt (\<lambda>a b. b \<le> a) (map createdAt ms)" for ms
    by (simp add: newest_first_def sorted_wrt_map)
  with r2 have "\<not> newest_first (messagesRef (mergePages initial_store [around_m4, around_head]))"
    by simp
  with tl f1 f2 r1 r2 show ?thesis by simp
qed






text \<open>
  C3. A call that supplies a pivot id (a non-empty string, which is what the code's
  truthiness test accepts as a pivot) that no message of the fetched page carries returns
  \<open>applied = False\<close> and the store it was given: sequence, index, pending sends and
  cursor are untouched.
\<close>

theorem processNewMessages_pivot_absent:
  assumes "p \<noteq> []" and "p \<notin> msg_id ` set (data_messages d)"
  shows "processNewMessages s (Some d) (Some p) sliceBefore sliceAfter = (False, s)"
proof -
  have "findIndex (\<lambda>m. Some (msg_id m) = Some p) (data_messages d) = - 1"
    using assms(2) by (auto simp: findIndex_none)
  with assms(1) show ?thesis
    by (simp add: processNewMessages_def indexOfPageWith_def truthy_str_def Let_def)
qed

theorem processNewMessages_pivot_absent_witness:
  "''m9'' \<noteq> [] \<and> ''m9'' \<notin> msg_id ` set [message_at ''m2'' 20] \<and>
   messagesRef held_store = [message_at ''m1'' 10] \<and>
   processNewMessages held_store (page_of [message_at ''m2'' 20]) (Some ''m9'') (Some 2) None
     = (False, held_store)"
proof -
  have held: "messagesRef held_store = [message_at ''m1'' 10]"
    by (simp add: held_store_def merge_eval)
  have absent: "''m9'' \<notin> msg_id ` set (data_messages
      \<lparr>data_messages = [message_at ''m2'' 20], data_lastChangeId = Some ''5''\<rparr>)"
    by (simp add: message_at_def)
  have "''m9'' \<noteq> []" by simp
  from processNewMessages_pivot_absent [OF this absent, of held_store "Some 2" None] held
  show ?thesis by (simp add: page_of_def message_at_def)
qed

section \<open>Facts about the derived list\<close>

lemma pushNew_unseen:
  "pushNew ms acc = (fst acc @ unseen (snd acc) ms, snd acc \<union> msg_id ` set ms)"
proof (induction ms arbitrary: acc)
  case Nil
  show ?case by simp
next
  case (Cons m ms)
  show ?case by (auto simp: Cons.IH)
qed

lemma unseen_subseq: "subseq (unseen seen ms) ms"
  by (induction ms arbitrary: seen) auto

lemma unseen_ids: "msg_id ` set (unseen seen ms) = msg_id ` set ms - seen"
  by (induction ms arbitrary: seen) auto

lemma unseen_distinct: "distinct (map msg_id (unseen seen ms))"
proof (induction ms arbitrary: seen)
  case Nil
  show ?case by simp
next
  case (Cons m ms)
  have "msg_id m \<notin> msg_id ` set (unseen (insert (msg_id m) seen) ms)"
    by (simp add: unseen_ids)
  with Cons.IH show ?case by simp
qed

lemma unseen_all:
  "distinct (map msg_id ms) \<Longrightarrow> msg_id ` set ms \<inter> seen = {} \<Longrightarrow> unseen seen ms = ms"
proof (induction ms arbitrary: seen)
  case Nil
  show ?case by simp
next
  case (Cons m ms)
  then have "msg_id ` set ms \<inter> insert (msg_id m) seen = {}" by auto
  with Cons show ?case by auto
qed

lemma messages_unseen:
  "messages s =
     unseen {} (rev (map snd (sentMessagesRef s))) @
     unseen (msg_id ` snd ` set (sentMessagesRef s)) (messagesRef s)"
  by (simp add: messages_def pushNew_unseen image_image)

text \<open>
  C5. The derived list is a list of pending sends followed by a list of canonical
  messages. The pending part is taken from the pending sends in the order most recently
  queued first and carries the id of every pending send, so in particular every pending
  send whose id the index does not know stands ahead of all canonical messages; when the
  pending sends have distinct ids it is all of them. The canonical part is taken from the
  sequence in its order and carries exactly the ids that no pending send has. No id occurs
  twice in the list.
\<close>

theorem messages_pending_first:
  "\<exists>pending canonical.
     messages s = pending @ canonical \<and>
     subseq pending (rev (map snd (sentMessagesRef s))) \<and>
     (\<forall>p \<in> snd ` set (sentMessagesRef s).
        messagesByIdRef s (msg_id p) = None \<longrightarrow> msg_id p \<in> msg_id ` set pending) \<and>
     msg_id ` set pending = msg_id ` snd ` set (sentMessagesRef s) \<and>
     (distinct (map (msg_id \<circ> snd) (sentMessagesRef s)) \<longrightarrow>
        pending = rev (map snd (sentMessagesRef s))) \<and>
     subseq canonical (messagesRef s) \<and>
     msg_id ` set canonical = msg_id ` set (messagesRef s) - msg_id ` set pending \<and>
     distinct (map msg_id (messages s))"
proof -
  define sent where "sent = rev (map snd (sentMessagesRef s))"
  define pending where "pending = unseen {} sent"
  define canonical where "canonical = unseen (msg_id ` snd ` set (sentMessagesRef s)) (messagesRef s)"
  have sent_ids: "msg_id ` set sent = msg_id ` snd ` set (sentMessagesRef s)"
    by (simp add: sent_def)
  have split: "messages s = pending @ canonical"
    by (simp add: messages_unseen pending_def canonical_def sent_def)
  have p_sub: "subseq pending (rev (map snd (sentMessagesRef s)))"
    unfolding pending_def sent_def by (rule unseen_subseq)
  have p_ids: "msg_id ` set pending = msg_id ` snd ` set (sentMessagesRef s)"
    by (simp add: pending_def unseen_ids sent_ids)
  have p_all: "pending = rev (map snd (sentMessagesRef s))"
    if "distinct (map (msg_id \<circ> snd) (sentMessagesRef s))"
  proof -
    from that have "distinct (map msg_id sent)"
      by (simp add: sent_def rev_map [symmetric] distinct_rev)
    then show ?thesis by (simp add: pending_def unseen_all sent_def)
  qed
  have c_sub: "subseq canonical (messagesRef s)"
    unfolding canonical_def by (rule unseen_subseq)
  have c_ids: "msg_id ` set canonical = msg_id ` set (messagesRef s) - msg_id ` set pending"
    by (simp add: canonical_def unseen_ids p_ids)
  have "distinct (map msg_id pending)" and "distinct (map msg_id canonical)"
    by (simp_all add: pending_def canonical_def unseen_distinct)
  moreover have "msg_id ` set pending \<inter> msg_id ` set canonical = {}"
    unfolding c_ids by blast
  ultimately have dist: "distinct (map msg_id (messages s))"
    by (simp add: split)
  have p_new: "\<forall>p \<in> snd ` set (sentMessagesRef s).
        messagesByIdRef s (msg_id p) = None \<longrightarrow> msg_id p \<in> msg_id ` set pending"
    using p_ids by blast
  have p_all': "distinct (map (msg_id \<circ> snd) (sentMessagesRef s)) \<longrightarrow>
        pending = rev (map snd (sentMessagesRef s))"
    using p_all by (rule impI)
  show ?thesis
    apply (rule exI [of _ pending])
    apply (rule exI [of _ canonical])
    apply (intro conjI)
           apply (fact split)
          apply (fact p_sub)
         apply (fact p_new)
        apply (fact p_ids)
       apply (fact p_all')
      apply (fact c_sub)
     apply (fact c_ids)
    apply (fact dist)
    done
qed

theorem messages_pending_first_witness:
  "distinct (map (msg_id \<circ> snd) (sentMessagesRef pending_store)) \<and>
   message_at ''p2'' 30 \<in> snd ` set (sentMessagesRef pending_store) \<and>
   messagesByIdRef pending_store (msg_id (message_at ''p2'' 30)) = None \<and>
   messages pending_store = [message_at ''p2'' 30, message_at ''p1'' 20, message_at ''m1'' 10] \<and>
   distinct (map msg_id (messages pending_store))"
proof -
  have d: "distinct (map (msg_id \<circ> snd) (sentMessagesRef pending_store))"
    by (simp add: pending_store_def initial_store_def message_at_def)
  have p: "message_at ''p2'' 30 \<in> snd ` set (sentMessagesRef pending_store)"
    by (simp add: pending_store_def initial_store_def)
  have i: "messagesByIdRef pending_store (msg_id (message_at ''p2'' 30)) = None"
    by (simp add: pending_store_def initial_store_def message_at_def)
  have m: "messages pending_store
             = [message_at ''p2'' 30, message_at ''p1'' 20, message_at ''m1'' 10]"
    by (simp add: messages_def pending_store_def initial_store_def message_at_def)
  have "distinct (map msg_id (messages pending_store))"
    using messages_pending_first [of pending_store] by (elim exE conjE)
  with d p i m show ?thesis by simp
qed

section \<open>Facts about the change loop\<close>

lemma findIndex_update:
  "findIndex P xs \<noteq> - 1 \<Longrightarrow> P y \<Longrightarrow> findIndex P (xs[nat (findIndex P xs) := y]) = findIndex P xs"
proof (induction xs)
  case Nil
  then show ?case by simp
next
  case (Cons x xs)
  show ?case
  proof (cases "P x")
    case True
    with Cons.prems show ?thesis by simp
  next
    case False
    with Cons.prems have ne: "findIndex P xs \<noteq> - 1" by (auto simp: Let_def split: if_splits)
    have ge: "0 \<le> findIndex P xs" using findIndex_ge [of P xs] ne by arith
    then have "nat (findIndex P xs + 1) = Suc (nat (findIndex P xs))" by arith
    with False ne Cons.IH [OF ne Cons.prems(2)] show ?thesis by (simp add: Let_def)
  qed
qed

lemma applyOperation_Update_twice:
  "applyOperation (applyOperation s Update (Some m) i) Update (Some m) i
     = applyOperation s Update (Some m) i"
proof (cases "findIndex (\<lambda>x. msg_id x = msg_id m) (messagesRef s) = - 1")
  case True
  then show ?thesis by (simp add: Let_def)
next
  case False
  from findIndex_update [OF False, of m]
  have "findIndex (\<lambda>x. msg_id x = msg_id m)
          ((messagesRef s)[nat (findIndex (\<lambda>x. msg_id x = msg_id m) (messagesRef s)) := m])
        = findIndex (\<lambda>x. msg_id x = msg_id m) (messagesRef s)"
    by simp
  with False show ?thesis by (simp add: Let_def)
qed

lemma applyOperation_Delete_twice:
  "applyOperation (applyOperation s Delete m (Some i)) Delete m (Some i)
     = applyOperation s Delete m (Some i)"
  by simp

lemma applyOperation_Create_fields:
  "messagesByIdRef (applyOperation s Create (Some m) i) = (messagesByIdRef s)(msg_id m \<mapsto> m)"
  "sentMessagesRef (applyOperation s Create (Some m) i) = AList.delete (msg_id m) (sentMessagesRef s)"
  "lastChangeIdRef (applyOperation s Create (Some m) i) = lastChangeIdRef s"
  "lastMessageIdRef (applyOperation s Create (Some m) i) = Some (msg_id m)"
  "firstMessagesPageLoadedRef (applyOperation s Create (Some m) i) = firstMessagesPageLoadedRef s"
  "messagesRef (applyOperation s Create (Some m) i) =
     (if firstMessagesPageLoadedRef s then m # messagesRef s else messagesRef s)"
  by (simp_all add: Let_def)

lemma applyOperation_Create_twice:
  "\<not> firstMessagesPageLoadedRef s \<Longrightarrow>
   applyOperation (applyOperation s Create (Some m) i) Create (Some m) i
     = applyOperation s Create (Some m) i"
  by (simp add: Let_def AList.delete_idem)

lemma applyOperation_cursor:
  "applyOperation (s\<lparr>lastChangeIdRef := x\<rparr>) op m i = (applyOperation s op m i)\<lparr>lastChangeIdRef := x\<rparr>"
  by (cases "(s, op, m, i)" rule: applyOperation.cases) (simp_all add: Let_def)

lemma applyOperation_version:
  "applyOperation (s\<lparr>messagesVersion := v\<rparr>) op m i = (applyOperation s op m i)\<lparr>messagesVersion := v\<rparr>"
  by (cases "(s, op, m, i)" rule: applyOperation.cases) (simp_all add: Let_def)

lemma applyOperation_keeps:
  "lastChangeIdRef (applyOperation s op m i) = lastChangeIdRef s"
  "messagesVersion (applyOperation s op m i) = messagesVersion s"
  "firstMessagesPageLoadedRef (applyOperation s op m i) = firstMessagesPageLoadedRef s"
  by (cases "(s, op, m, i)" rule: applyOperation.cases; simp add: Let_def)+

lemma applyChanges_single:
  "applyChanges s [c] =
     (if change_id c \<noteq> []
      then (applyChange s c)\<lparr>lastChangeIdRef := Some (change_id c),
                             messagesVersion := messagesVersion s + 1\<rparr>
      else (applyChange s c)\<lparr>messagesVersion := messagesVersion s + 1\<rparr>)"
  by (simp add: applyChanges_def applyChange_def Let_def applyOperation_keeps)

lemma applyChange_after_single:
  "messagesRef (applyChanges (applyChanges s [c]) [c]) = messagesRef (applyChange (applyChange s c) c)"
  "messagesByIdRef (applyChanges (applyChanges s [c]) [c]) = messagesByIdRef (applyChange (applyChange s c) c)"
  "sentMessagesRef (applyChanges (applyChanges s [c]) [c]) = sentMessagesRef (applyChange (applyChange s c) c)"
  "lastChangeIdRef (applyChanges (applyChanges s [c]) [c]) = lastChangeIdRef (applyChanges s [c])"
  by (simp_all add: applyChanges_single applyChange_def applyOperation_cursor
      applyOperation_version applyOperation_keeps)

lemma applyChange_single_fields:
  "messagesRef (applyChanges s [c]) = messagesRef (applyChange s c)"
  "messagesByIdRef (applyChanges s [c]) = messagesByIdRef (applyChange s c)"
  "sentMessagesRef (applyChanges s [c]) = sentMessagesRef (applyChange s c)"
  by (simp_all add: applyChanges_single)

lemma applyChange_twice_index:
  "messagesByIdRef (applyChange (applyChange s c) c) = messagesByIdRef (applyChange s c)"
  unfolding applyChange_def
  by (cases "(s, operation c, change_message c, change_messageId c)" rule: applyOperation.cases)
     (simp_all add: Let_def)

lemma applyChange_twice_sent:
  "sentMessagesRef (applyChange (applyChange s c) c) = sentMessagesRef (applyChange s c)"
  unfolding applyChange_def
  by (cases "(s, operation c, change_message c, change_messageId c)" rule: applyOperation.cases)
     (simp_all add: Let_def AList.delete_idem)

lemma applyChange_twice_create:
  assumes "operation c = Create" and "change_message c = Some m" and "firstMessagesPageLoadedRef s"
  shows "messagesRef (applyChange s c) = m # messagesRef s"
    and "messagesRef (applyChange (applyChange s c) c) = m # messagesRef (applyChange s c)"
  using assms by (simp_all add: applyChange_def Let_def)

lemma applyChange_twice_messages:
  assumes "\<not> (operation c = Create \<and> change_message c \<noteq> None \<and> firstMessagesPageLoadedRef s)"
  shows "messagesRef (applyChange (applyChange s c) c) = messagesRef (applyChange s c)"
proof (cases "operation c")
  case Create
  show ?thesis
  proof (cases "change_message c")
    case None
    with Create show ?thesis by (simp add: applyChange_def)
  next
    case (Some m)
    with Create assms have "\<not> firstMessagesPageLoadedRef s" by simp
    with Create Some show ?thesis
      by (simp add: applyChange_def applyOperation_Create_twice)
  qed
next
  case Update
  show ?thesis
  proof (cases "change_message c")
    case None
    with Update show ?thesis by (simp add: applyChange_def)
  next
    case (Some m)
    with Update show ?thesis
      by (simp only: applyChange_def applyOperation_Update_twice)
  qed
next
  case Delete
  show ?thesis
  proof (cases "change_messageId c")
    case None
    with Delete show ?thesis by (simp add: applyChange_def)
  next
    case (Some i)
    with Delete show ?thesis
      by (simp only: applyChange_def applyOperation_Delete_twice)
  qed
qed

lemma messages_fields:
  "messagesRef a = messagesRef b \<Longrightarrow> sentMessagesRef a = sentMessagesRef b
     \<Longrightarrow> messages a = messages b"
  by (simp add: messages_def)

lemma messages_repeated_head:
  assumes "messagesRef a = m # m # ms" and "messagesRef b = m # ms"
    and "sentMessagesRef a = sentMessagesRef b"
  shows "messages a = messages b"
proof -
  have "unseen seen (m # m # ms) = unseen seen (m # ms)" for seen
    by simp
  with assms show ?thesis by (simp only: messages_unseen)
qed

lemmas change_eval =
  applyChanges_def applyChange_def create_m2_def update_m1_def held_store_def merge_eval

text \<open>
  C4 (as the code has it). Applying the same change record a second time leaves the id
  index, the pending sends, the cursor and the derived list \<open>messages\<close> as the first
  application left them. The sequence is left as well by an update, by a delete and by a
  create while \<open>firstMessagesPageLoadedRef\<close> is unset; while it is set, a create puts
  the message at the head once more.
\<close>

theorem applyChanges_twice:
  "messagesByIdRef (applyChanges (applyChanges s [c]) [c]) = messagesByIdRef (applyChanges s [c]) \<and>
   sentMessagesRef (applyChanges (applyChanges s [c]) [c]) = sentMessagesRef (applyChanges s [c]) \<and>
   lastChangeIdRef (applyChanges (applyChanges s [c]) [c]) = lastChangeIdRef (applyChanges s [c]) \<and>
   messages (applyChanges (applyChanges s [c]) [c]) = messages (applyChanges s [c]) \<and>
   (\<not> (operation c = Create \<and> change_message c \<noteq> None \<and> firstMessagesPageLoadedRef s) \<longrightarrow>
      messagesRef (applyChanges (applyChanges s [c]) [c]) = messagesRef (applyChanges s [c])) \<and>
   (\<forall>m. operation c = Create \<and> change_message c = Some m \<and> firstMessagesPageLoadedRef s \<longrightarrow>
      messagesRef (applyChanges (applyChanges s [c]) [c]) = m # messagesRef (applyChanges s [c]))"
proof -
  let ?once = "applyChanges s [c]" and ?twice = "applyChanges (applyChanges s [c]) [c]"
  note twice = applyChange_after_single [of s c] and once = applyChange_single_fields [of s c]
  have idx: "messagesByIdRef ?twice = messagesByIdRef ?once"
    by (simp only: twice once applyChange_twice_index)
  have sent: "sentMessagesRef ?twice = sentMessagesRef ?once"
    by (simp only: twice once applyChange_twice_sent)
  have cur: "lastChangeIdRef ?twice = lastChangeIdRef ?once"
    by (rule twice)
  have same: "messagesRef ?twice = messagesRef ?once"
    if "\<not> (operation c = Create \<and> change_message c \<noteq> None \<and> firstMessagesPageLoadedRef s)"
    using applyChange_twice_messages [OF that]
    by (simp only: twice once)
  have again: "messagesRef ?once = m # messagesRef s \<and> messagesRef ?twice = m # messagesRef ?once"
    if "operation c = Create \<and> change_message c = Some m \<and> firstMessagesPageLoadedRef s" for m
  proof -
    from that have "operation c = Create" "change_message c = Some m" "firstMessagesPageLoadedRef s"
      by simp_all
    from applyChange_twice_create [OF this] show ?thesis
      by (simp only: twice once)
  qed
  have view: "messages ?twice = messages ?once"
  proof (cases "operation c = Create \<and> change_message c \<noteq> None \<and> firstMessagesPageLoadedRef s")
    case False
    from same [OF False] sent show ?thesis by (rule messages_fields)
  next
    case True
    then obtain m where m: "operation c = Create \<and> change_message c = Some m \<and> firstMessagesPageLoadedRef s"
      by auto
    from again [OF m] have "messagesRef ?twice = m # m # messagesRef s"
      and "messagesRef ?once = m # messagesRef s" by simp_all
    from this sent show ?thesis by (rule messages_repeated_head)
  qed
  from idx sent cur view same again show ?thesis by blast
qed

theorem applyChanges_twice_witness:
  "\<not> (operation update_m1 = Create \<and> change_message update_m1 \<noteq> None
        \<and> firstMessagesPageLoadedRef held_store) \<and>
   messagesRef (applyChanges (applyChanges held_store [update_m1]) [update_m1])
     = messagesRef (applyChanges held_store [update_m1]) \<and>
   messagesRef (applyChanges held_store [update_m1]) = [(message_at ''m1'' 10)\<lparr>msg_text := ''edited''\<rparr>] \<and>
   operation create_m2 = Create \<and> change_message create_m2 = Some (message_at ''m2'' 20) \<and>
   firstMessagesPageLoadedRef held_store \<and>
   messagesRef (applyChanges (applyChanges held_store [create_m2]) [create_m2])
     = message_at ''m2'' 20 # messagesRef (applyChanges held_store [create_m2]) \<and>
   messages (applyChanges (applyChanges held_store [create_m2]) [create_m2])
     = messages (applyChanges held_store [create_m2])"
proof -
  have u: "\<not> (operation update_m1 = Create \<and> change_message update_m1 \<noteq> None
        \<and> firstMessagesPageLoadedRef held_store)"
    by (simp add: update_m1_def)
  have r: "messagesRef (applyChanges held_store [update_m1])
             = [(message_at ''m1'' 10)\<lparr>msg_text := ''edited''\<rparr>]"
    by (simp add: change_eval)
  have c: "operation create_m2 = Create \<and> change_message create_m2 = Some (message_at ''m2'' 20) \<and>
     firstMessagesPageLoadedRef held_store"
    by (simp add: change_eval)
  from applyChanges_twice [of held_store update_m1] applyChanges_twice [of held_store create_m2] u r c
  show ?thesis by blast
qed

text \<open>
  The claim as stated fails for a create: the store holds \<open>m1\<close> with
  \<open>firstMessagesPageLoadedRef\<close> set, and the record that creates \<open>m2\<close> is applied. One
  application gives the sequence \<open>[m2, m1]\<close>, two give \<open>[m2, m2, m1]\<close>.
\<close>

theorem applyChanges_twice_counterexample:
  "firstMessagesPageLoadedRef held_store \<and>
   messagesRef (applyChanges held_store [create_m2]) = [message_at ''m2'' 20, message_at ''m1'' 10] \<and>
   messagesRef (applyChanges (applyChanges held_store [create_m2]) [create_m2])
     = [message_at ''m2'' 20, message_at ''m2'' 20, message_at ''m1'' 10] \<and>
   applyChanges (applyChanges held_store [create_m2]) [create_m2] \<noteq> applyChanges held_store [create_m2]"
proof -
  have f: "firstMessagesPageLoadedRef held_store"
    by (simp add: change_eval)
  have a: "messagesRef (applyChanges held_store [create_m2])
             = [message_at ''m2'' 20, message_at ''m1'' 10]"
    by (simp add: change_eval)
  have b: "messagesRef (applyChanges (applyChanges held_store [create_m2]) [create_m2])
     = [message_at ''m2'' 20, message_at ''m2'' 20, message_at ''m1'' 10]"
    by (simp add: change_eval)
  have "messagesRef (applyChanges (applyChanges held_store [create_m2]) [create_m2])
          \<noteq> messagesRef (applyChanges held_store [create_m2])"
    unfolding a b by simp
  then have "applyChanges (applyChanges held_store [create_m2]) [create_m2]
               \<noteq> applyChanges held_store [create_m2]"
    by metis
  with f a b show ?thesis by simp
qed

section \<open>markAsRead\<close>

text \<open>
  C6 (as the code has it). When the last-marked id is a non-empty string that the id
  index resolves to a message, \<open>markAsRead\<close> is a no-op (the store is unchanged and no
  request is issued) for every message that has the id of that message, and for every
  message whose creation time is non-zero and older than the non-zero creation time of
  that message.
\<close>

theorem markAsRead_not_newer:
  assumes "lastMarkAsReadIdRef s = Some i" and "i \<noteq> []" and "messagesByIdRef s i = Some l"
    and "msg_id message = msg_id l \<or>
         (createdAt message \<noteq> 0 \<and> createdAt l \<noteq> 0 \<and> createdAt message < createdAt l)"
  shows "markAsRead chatConfig s message = (s, [])"
  using assms by (auto simp: markAsRead_def Let_def split: option.splits)

theorem markAsRead_not_newer_witness:
  "lastMarkAsReadIdRef marked_store = Some ''m1'' \<and> ''m1'' \<noteq> [] \<and>
   messagesByIdRef marked_store ''m1'' = Some (message_at ''m1'' 10) \<and>
   (msg_id (message_at ''m0'' 5) = msg_id (message_at ''m1'' 10) \<or>
    (createdAt (message_at ''m0'' 5) \<noteq> 0 \<and> createdAt (message_at ''m1'' 10) \<noteq> 0 \<and>
     createdAt (message_at ''m0'' 5) < createdAt (message_at ''m1'' 10))) \<and>
   markAsRead example_config marked_store (message_at ''m0'' 5) = (marked_store, [])"
proof -
  have a: "lastMarkAsReadIdRef marked_store = Some ''m1''"
    by (simp add: marked_store_def)
  have b: "messagesByIdRef marked_store ''m1'' = Some (message_at ''m1'' 10)"
    by (simp add: marked_store_def held_store_def merge_eval)
  have c: "msg_id (message_at ''m0'' 5) = msg_id (message_at ''m1'' 10) \<or>
    (createdAt (message_at ''m0'' 5) \<noteq> 0 \<and> createdAt (message_at ''m1'' 10) \<noteq> 0 \<and>
     createdAt (message_at ''m0'' 5) < createdAt (message_at ''m1'' 10))"
    by (simp add: message_at_def)
  have "''m1'' \<noteq> []" by simp
  from markAsRead_not_newer [OF a this b c, of example_config] a b c show ?thesis
    by simp
qed

text \<open>
  The claim as stated fails in two ways. After a confirmed send the last-marked id is
  \<open>m1\<close> and the index does not hold \<open>m1\<close> yet: marking \<open>m1\<close> again issues the
  request. With the last-marked message \<open>m1\<close> indexed with creation time 10, marking a
  message with creation time 0, which is older, moves the marker to it and issues the
  request.
\<close>

theorem markAsRead_not_newer_counterexample:
  "lastMarkAsReadIdRef unindexed_marker_store = Some ''m1'' \<and>
   messagesByIdRef unindexed_marker_store ''m1'' = None \<and>
   markAsRead example_config unindexed_marker_store (message_at ''m1'' 10)
     = (unindexed_marker_store, [PostMarkAsRead ''/read'' ''m1'']) \<and>
   markAsRead example_config marked_store (message_at ''m0'' 0)
     = (marked_store\<lparr>lastMarkAsReadIdRef := Some ''m0''\<rparr>, [PostMarkAsRead ''/read'' ''m0''])"
proof -
  have sent: "unindexed_marker_store =
      initial_store\<lparr>sentMessagesRef := [(''m1'', message_at ''m1'' 10)],
                     lastMarkAsReadIdRef := Some ''m1'', lastMessageIdRef := Some ''m1'',
                     messagesVersion := 2\<rparr>"
    by (simp add: unindexed_marker_store_def sendMessage_def example_config_def trim_def
        is_whitespace_def initial_store_def message_at_def)
  have a: "markAsRead example_config unindexed_marker_store (message_at ''m1'' 10)
     = (unindexed_marker_store, [PostMarkAsRead ''/read'' ''m1''])"
    unfolding sent
    by (simp add: markAsRead_def example_config_def initial_store_def message_at_def)
  have b: "markAsRead example_config marked_store (message_at ''m0'' 0)
     = (marked_store\<lparr>lastMarkAsReadIdRef := Some ''m0''\<rparr>, [PostMarkAsRead ''/read'' ''m0''])"
    by (simp add: markAsRead_def example_config_def marked_store_def held_store_def merge_eval)
  have c: "lastMarkAsReadIdRef unindexed_marker_store = Some ''m1''"
    and d: "messagesByIdRef unindexed_marker_store ''m1'' = None"
    unfolding sent by (simp_all add: initial_store_def)
  from a b c d show ?thesis by simp
qed

section \<open>sendMessage\<close>

lemma trim_blank:
  assumes "\<forall>c \<in> set text. is_whitespace c"
  shows "trim text = []"
proof -
  from assms have "dropWhile is_whitespace text = []" by simp
  then show ?thesis unfolding trim_def by (simp only: rev.simps dropWhile.simps)
qed

text \<open>
  C10. For a text that is empty or consists of whitespace only, \<open>sendMessage\<close> returns
  the store it was given and issues no request: no pending send is inserted and the
  \<open>error\<close> state is untouched.
\<close>

theorem sendMessage_blank:
  assumes "\<forall>c \<in> set text. is_whitespace c"
  shows "sendMessage chatConfig messageId now s text = (s, [])"
  using trim_blank [OF assms] by (simp add: sendMessage_def split: option.splits)

theorem sendMessage_blank_witness:
  "is_whitespace (CHR 0x20) \<and> is_whitespace (CHR 0x09) \<and> is_whitespace (CHR 0x0A) \<and>
   sendMessage example_config ''id1'' 1000 held_store [CHR 0x20, CHR 0x09, CHR 0x0A]
     = (held_store, [])"
proof -
  have w: "\<forall>c \<in> set [CHR 0x20, CHR 0x09, CHR 0x0A]. is_whitespace c"
    by (simp add: is_whitespace_def)
  from sendMessage_blank [OF w, of example_config "''id1''" 1000 held_store] w show ?thesis
    by simp
qed

section \<open>SocketStore rooms\<close>

lemma leave_deletes:
  "rooms (leave st roomName) roomName = None \<or> rooms st roomName = Some 0"
  by (auto simp: leave_def Let_def split: option.splits)

lemma leave_held_twice:
  assumes "rooms st roomName = Some n" and "2 \<le> n"
  shows "emitted (leave st roomName) = emitted st" and "rooms (leave st roomName) roomName = None"
  using assms by (simp_all add: leave_def Let_def)

text \<open>
  C7. What the code does on two joins followed by two leaves of the room \<open>r\<close>, with a
  connection: the join is emitted once and no leave is emitted. The first \<open>leave\<close>
  lowers the counter from 2 to 1 and then deletes the entry, so the second \<open>leave\<close>
  finds no entry and returns.
\<close>

theorem join_twice_leave_twice_emits:
  "room_calls connected_store [Join ''r'', Join ''r'', Leave ''r'', Leave ''r'']
     = Inr (connected_store\<lparr>emitted := [(''join'', [''r''])]\<rparr>)"
  by (simp add: connected_store_def join_def leave_def)

section \<open>debounce\<close>

lemma debounce_scheduled_ignores:
  "ms \<noteq> 0 \<Longrightarrow> scheduled d \<Longrightarrow> foldl (debounce ms) d (map Invoke as) = d"
  by (induction as) simp_all

text \<open>
  C8 (as the code has it). With a non-zero interval, a burst of calls of the wrapper that
  starts while no timer is pending and is followed by the expiry of the timer runs the
  callback exactly once, with the arguments of the first call of the burst; the later
  calls of the burst are dropped.
\<close>

theorem debounce_burst_first_arguments:
  assumes "ms \<noteq> 0" and "\<not> scheduled d"
  shows "debounce_run ms d (map Invoke (a # as) @ [TimerFires])
           = d\<lparr>scheduled := False, timer := None, applied := applied d @ [a]\<rparr>"
proof -
  have "foldl (debounce ms) d (map Invoke (a # as))
          = d\<lparr>scheduled := True, timer := Some a\<rparr>"
    using assms debounce_scheduled_ignores [of ms "d\<lparr>scheduled := True, timer := Some a\<rparr>" as]
    by simp
  then show ?thesis by (simp add: debounce_run_def)
qed

theorem debounce_burst_first_arguments_witness:
  "(100::nat) \<noteq> 0 \<and> \<not> scheduled (idle :: nat debounced) \<and>
   debounce_run 100 idle (map Invoke [1, 2, 3 :: nat] @ [TimerFires])
     = idle\<lparr>scheduled := False, timer := None, applied := [1]\<rparr>"
  using debounce_burst_first_arguments [of 100 "idle :: nat debounced" 1 "[2, 3]"]
  by (simp add: idle_def)

text \<open>
  The claim as stated fails: the wrapper is called with 1 and then with 2 inside the
  interval. When the timer expires the callback is applied to 1, not to the most recent
  argument 2.
\<close>

theorem debounce_burst_counterexample:
  "applied (debounce_run 100 idle [Invoke (1::nat), Invoke 2, TimerFires]) = [1] \<and>
   applied (debounce_run 100 idle [Invoke (1::nat), Invoke 2, TimerFires]) \<noteq> [2]"
  by (simp add: debounce_run_def idle_def)

section \<open>SocketSubscription\<close>

text \<open>
  C9 (as the code has it). On the acknowledgment path the listeners of a subscription are
  called if and only if the cached value and the new value are both truthy and differ; on
  the push path they are called on every push, whatever the cached value is. Either
  path calls every listener once, in order, and caches the new value.
\<close>

theorem subscription_notifies:
  "called (onSubscribeAck sub data) =
     (if truthy_str (lastUpdatedValue sub) \<and> truthy_str data \<and> lastUpdatedValue sub \<noteq> data
      then called sub @ listeners sub else called sub) \<and>
   (listeners sub \<noteq> [] \<longrightarrow>
      (called (onSubscribeAck sub data) \<noteq> called sub \<longleftrightarrow>
         truthy_str (lastUpdatedValue sub) \<and> truthy_str data \<and> lastUpdatedValue sub \<noteq> data)) \<and>
   called (onUpdated sub data) = called sub @ listeners sub \<and>
   lastUpdatedValue (onSubscribeAck sub data) = data \<and>
   lastUpdatedValue (onUpdated sub data) = data"
  by (simp add: onSubscribeAck_def onUpdated_def emitChanged_def Let_def)

theorem subscription_notifies_witness:
  "listeners example_subscription \<noteq> [] \<and>
   called (onSubscribeAck example_subscription (Some ''v2'')) = [0, 1] \<and>
   called (onSubscribeAck example_subscription (Some ''v1'')) = [] \<and>
   called (onUpdated example_subscription (Some ''v1'')) = [0, 1]"
  using subscription_notifies [of example_subscription "Some ''v2''"]
    subscription_notifies [of example_subscription "Some ''v1''"]
  by (simp add: example_subscription_def truthy_str_def)

text \<open>
  The claim as stated fails on both paths. A push that carries the cached value \<open>v1\<close>
  again still calls the listeners. An acknowledgment that carries \<open>v1\<close> while nothing is
  cached yet differs from the cached value and calls no listener.
\<close>

theorem subscription_notifies_counterexample:
  "lastUpdatedValue example_subscription = Some ''v1'' \<and>
   called (onUpdated example_subscription (Some ''v1'')) = [0, 1] \<and>
   lastUpdatedValue (example_subscription\<lparr>lastUpdatedValue := None\<rparr>) \<noteq> Some ''v1'' \<and>
   called (onSubscribeAck (example_subscription\<lparr>lastUpdatedValue := None\<rparr>) (Some ''v1'')) = []"
  by (simp add: example_subscription_def onSubscribeAck_def onUpdated_def emitChanged_def
      truthy_str_def)

end
